theory Spec2Isabelle
  imports Main "HOL-Library.AList" "HOL-Library.While_Combinator"
    "HOL-Library.List_Lexorder" "HOL-Library.Char_ord"
begin

section \<open>The pgen grammar compiler of parso (\<^verbatim>\<open>parso/pgen2/pgen.py\<close>)\<close>

text \<open>
  The development follows the source file top-down in dependency order: the automaton
  primitives, subset construction (\<^verbatim>\<open>_make_dfas\<close>), the minimiser
  (\<^verbatim>\<open>_simplify_dfas\<close>), first sets (\<^verbatim>\<open>_calcfirst\<close>) and the table
  assembler (\<^verbatim>\<open>make_grammar\<close>). A leading underscore of a Python name is dropped,
  since an Isabelle name cannot start with one.

  Python dictionaries keep insertion order, and the source iterates over them, so a
  dictionary is an association list with distinct keys: \<open>map_of\<close> reads it and
  \<open>AList.update\<close> writes it (a present key is overwritten in place, a new key goes to
  the end, as in Python). A dictionary used as a set (all values \<open>1\<close>) is the list of
  its keys. A Python exception is a value of type \<open>error\<close>, returned as \<open>Inl\<close>.
\<close>

subsection \<open>Errors\<close>

type_synonym label = string

datatype error =
    AssertionError
  | StopIteration
  | KeyError label
  | IndexError
  | TypeError
  | SyntaxError label
  | ValueError_recursion label
  | ValueError_ambiguous label label label label
  | ValueError_not_in_list

subsection \<open>NFA states\<close>

text \<open>
  \<^verbatim>\<open>NFAState\<close> is declared in \<^verbatim>\<open>grammar_parser.py\<close>; the compiler only reads
  its field \<^verbatim>\<open>arcs\<close>, a list of pairs \<^verbatim>\<open>(label, next)\<close> where the label
  \<^verbatim>\<open>None\<close> is an epsilon move. NFA states are compared by identity, so a state is
  a handle (a natural number) into an arena that lists the arcs of every state. A handle
  outside the arena stands for a state without arcs.
\<close>

type_synonym nfa = "(label option \<times> nat) list list"

definition nfa_arcs :: "nfa \<Rightarrow> nat \<Rightarrow> (label option \<times> nat) list" where
  "nfa_arcs nfa s = (if s < length nfa then nfa ! s else [])"

subsection \<open>Epsilon closure\<close>

text \<open>
  \<^verbatim>\<open>addclosure(state, base)\<close> adds to the dictionary \<^verbatim>\<open>base\<close> every state
  reachable from \<^verbatim>\<open>state\<close> by epsilon arcs, depth first, skipping states that are
  already in \<^verbatim>\<open>base\<close>. Its \<^verbatim>\<open>for\<close> loop over the arcs is the second function.
\<close>

function addclosure :: "nfa \<Rightarrow> nat \<Rightarrow> nat list \<Rightarrow> nat list"
  and addclosure_arcs :: "nfa \<Rightarrow> (label option \<times> nat) list \<Rightarrow> nat list \<Rightarrow> nat list"
where
  "addclosure nfa state base =
     (if state \<in> set base then base
      else addclosure_arcs nfa (nfa_arcs nfa state) (base @ [state]))"
| "addclosure_arcs nfa [] base = base"
| "addclosure_arcs nfa ((None, nxt) # rest) base =
     addclosure_arcs nfa rest (addclosure nfa nxt base)"
| "addclosure_arcs nfa ((Some l, nxt) # rest) base = addclosure_arcs nfa rest base"
  by pat_completeness auto

lemma addclosure_grows_dom:
  "addclosure_addclosure_arcs_dom (Inl (nfa, state, base)) \<Longrightarrow>
     set base \<subseteq> set (addclosure nfa state base)"
  "addclosure_addclosure_arcs_dom (Inr (nfa, as, base)) \<Longrightarrow>
     set base \<subseteq> set (addclosure_arcs nfa as base)"
proof (induction nfa state base and nfa as base rule: addclosure_addclosure_arcs.pinduct)
  case (1 nfa state base)
  then show ?case by (auto simp: addclosure.psimps)
next
  case (2 nfa base)
  then show ?case by (simp add: addclosure_arcs.psimps)
next
  case (3 nfa nxt rest base)
  then show ?case by (auto simp: addclosure_arcs.psimps)
next
  case (4 nfa l nxt rest base)
  then show ?case by (auto simp: addclosure_arcs.psimps)
qed

text \<open>
  The recursion ends because every call that goes on marks a state of the arena that
  was not marked before (or, for a handle outside the arena, has no arcs to follow).
\<close>

termination addclosure
proof (relation "inv_image (less_than <*lex*> less_than) (\<lambda>x. case x of
          Inl (nfa, state, base) \<Rightarrow> (card ({..<length nfa} - set base), 1::nat)
        | Inr (nfa, as, base) \<Rightarrow> (card ({..<length nfa} - set base), 2 * length as))",
    goal_cases)
  case 1
  show ?case by (intro wf_inv_image wf_lex_prod wf_less_than)
next
  case (2 nfa state base)
  show ?case
  proof (cases "state < length nfa")
    case True
    have "{..<length nfa} - set (base @ [state]) \<subset> {..<length nfa} - set base"
      using True 2 by auto
    then have "card ({..<length nfa} - set (base @ [state]))
        < card ({..<length nfa} - set base)"
      by (intro psubset_card_mono) auto
    then show ?thesis by simp
  next
    case False
    then have "{..<length nfa} - set (base @ [state]) = {..<length nfa} - set base"
      by auto
    with False show ?thesis by (simp add: nfa_arcs_def)
  qed
next
  case (3 nfa nxt rest base)
  then show ?case by simp
next
  case (4 nfa nxt rest base)
  have "{..<length nfa} - set (addclosure nfa nxt base) \<subseteq> {..<length nfa} - set base"
    using addclosure_grows_dom(1)[OF 4] by auto
  then have "card ({..<length nfa} - set (addclosure nfa nxt base))
      \<le> card ({..<length nfa} - set base)"
    by (intro card_mono) auto
  then show ?case by auto
next
  case (5 nfa l nxt rest base)
  then show ?case by simp
qed

definition closure :: "nfa \<Rightarrow> nat \<Rightarrow> nat list" where
  "closure nfa state = addclosure nfa state []"

subsection \<open>DFA states\<close>

text \<open>
  A \<^verbatim>\<open>DFAState\<close> is a mutable object, and arcs hold references to such objects, which
  the minimiser compares with \<^verbatim>\<open>is\<close>. The field \<open>sid\<close> is the identity of the object;
  an arc holds the \<open>sid\<close> of its target. A rule's DFA is the list of its state objects,
  and a mutation of a state replaces the element of the list.
\<close>

record DFAState =
  sid :: nat
  nfaset :: "nat list"
  isfinal :: bool
  arcs :: "(label \<times> nat) list"

text \<open>
  \<^verbatim>\<open>DFAState.__init__\<close>: the type assertions hold by typing;
  \<^verbatim>\<open>next(iter(nfaset))\<close> raises \<^verbatim>\<open>StopIteration\<close> on an empty dictionary.
\<close>

definition DFAState_init :: "nat \<Rightarrow> nat list \<Rightarrow> nat \<Rightarrow> error + DFAState" where
  "DFAState_init ref members final =
     (if members = [] then Inl StopIteration
      else Inr \<lparr>sid = ref, nfaset = members, isfinal = (final \<in> set members), arcs = []\<rparr>)"

definition add_arc :: "DFAState \<Rightarrow> nat \<Rightarrow> label \<Rightarrow> error + DFAState" where
  "add_arc self nxt label =
     (if label \<in> fst ` set (arcs self) then Inl AssertionError
      else Inr (self\<lparr>arcs := arcs self @ [(label, nxt)]\<rparr>))"

definition unifystate :: "DFAState \<Rightarrow> nat \<Rightarrow> nat \<Rightarrow> DFAState" where
  "unifystate self old new =
     self\<lparr>arcs := map (\<lambda>(label, nxt). (label, if nxt = old then new else nxt)) (arcs self)\<rparr>"

text \<open>
  \<^verbatim>\<open>DFAState.__eq__\<close>: \<^verbatim>\<open>other.arcs.get(label)\<close> is \<^verbatim>\<open>None\<close> for a missing
  label, which is never identical to a state.
\<close>

definition DFAState_eq :: "DFAState \<Rightarrow> DFAState \<Rightarrow> bool" where
  "DFAState_eq self other =
     (if isfinal self \<noteq> isfinal other then False
      else if length (arcs self) \<noteq> length (arcs other) then False
      else list_all (\<lambda>(label, nxt). map_of (arcs other) label = Some nxt) (arcs self))"

subsection \<open>Subset construction: \<^verbatim>\<open>_make_dfas\<close>\<close>

text \<open>
  The first inner loop of \<^verbatim>\<open>_make_dfas\<close>: for every NFA state of the DFA state and
  every labelled arc leaving it, \<^verbatim>\<open>arcs.setdefault(label, {})\<close> fetches (or creates, at
  the end of the dictionary) the candidate set of the label, and \<^verbatim>\<open>addclosure\<close> grows it.
\<close>

definition move_arc :: "nfa \<Rightarrow> label option \<times> nat \<Rightarrow> (label \<times> nat list) list
    \<Rightarrow> (label \<times> nat list) list" where
  "move_arc nfa = (\<lambda>(label, nxt) arcs.
     case label of
       None \<Rightarrow> arcs
     | Some l \<Rightarrow>
         AList.update l
           (addclosure nfa nxt (case map_of arcs l of None \<Rightarrow> [] | Some base \<Rightarrow> base)) arcs)"

definition state_moves :: "nfa \<Rightarrow> nat list \<Rightarrow> (label \<times> nat list) list" where
  "state_moves nfa members =
     fold (\<lambda>nfastate. fold (move_arc nfa) (nfa_arcs nfa nfastate)) members []"

definition add_arc_at :: "DFAState list \<Rightarrow> nat \<Rightarrow> nat \<Rightarrow> label \<Rightarrow> error + DFAState list" where
  "add_arc_at states i nxt label =
     (case add_arc (states ! i) nxt label of
        Inl e \<Rightarrow> Inl e
      | Inr s \<Rightarrow> Inr (states[i := s]))"

text \<open>
  The second inner loop, for one item \<^verbatim>\<open>(label, nfaset)\<close>: look for a state with an
  equal \<^verbatim>\<open>nfaset\<close> (dictionaries with values \<open>1\<close> are equal when their key sets are),
  else create and append one; then \<^verbatim>\<open>state.add_arc(st, label)\<close>, where \<^verbatim>\<open>state\<close>
  is the object at index \<open>i\<close>. A new object gets the next free identity, the number of
  objects created so far.
\<close>

definition add_target :: "nat \<Rightarrow> nat \<Rightarrow> label \<times> nat list \<Rightarrow> DFAState list
    \<Rightarrow> error + DFAState list" where
  "add_target finish i = (\<lambda>(label, members) states.
     case find (\<lambda>st. set (nfaset st) = set members) states of
       Some st \<Rightarrow> add_arc_at states i (sid st) label
     | None \<Rightarrow>
         (case DFAState_init (length states) members finish of
            Inl e \<Rightarrow> Inl e
          | Inr st \<Rightarrow> add_arc_at (states @ [st]) i (sid st) label))"

fun foldM :: "('a \<Rightarrow> 's \<Rightarrow> error + 's) \<Rightarrow> 'a list \<Rightarrow> 's \<Rightarrow> error + 's" where
  "foldM f [] s = Inr s"
| "foldM f (x # xs) s = (case f x s of Inl e \<Rightarrow> Inl e | Inr s' \<Rightarrow> foldM f xs s')"

definition make_dfas_state :: "nfa \<Rightarrow> nat \<Rightarrow> nat \<Rightarrow> DFAState list \<Rightarrow> error + DFAState list" where
  "make_dfas_state nfa finish i states =
     foldM (add_target finish i) (state_moves nfa (nfaset (states ! i))) states"

text \<open>
  \<^verbatim>\<open>for state in states\<close> runs over a list that grows meanwhile: it is a loop on an
  index \<open>i\<close> that ends when \<open>i\<close> reaches the current length. The loop may a priori run
  forever, so it is a \<open>while_option\<close>, and \<open>None\<close> would mean that it does.
\<close>

definition make_dfas_cond :: "error + DFAState list \<times> nat \<Rightarrow> bool" where
  "make_dfas_cond s = (case s of Inl e \<Rightarrow> False | Inr (states, i) \<Rightarrow> i < length states)"

definition make_dfas_body :: "nfa \<Rightarrow> nat \<Rightarrow> error + DFAState list \<times> nat
    \<Rightarrow> error + DFAState list \<times> nat" where
  "make_dfas_body nfa finish s =
     (case s of
        Inl e \<Rightarrow> Inl e
      | Inr (states, i) \<Rightarrow>
          (case make_dfas_state nfa finish i states of
             Inl e \<Rightarrow> Inl e
           | Inr states' \<Rightarrow> Inr (states', Suc i)))"

definition make_dfas :: "nfa \<Rightarrow> nat \<Rightarrow> nat \<Rightarrow> (error + DFAState list) option" where
  "make_dfas nfa start finish =
     (case DFAState_init 0 (closure nfa start) finish of
        Inl e \<Rightarrow> Some (Inl e)
      | Inr s0 \<Rightarrow>
          map_option (map_sum id fst)
            (while_option make_dfas_cond (make_dfas_body nfa finish) (Inr ([s0], 0))))"

subsection \<open>Minimisation: \<^verbatim>\<open>_simplify_dfas\<close>\<close>

text \<open>
  The body of the \<^verbatim>\<open>if state_i == state_j\<close> branch: \<^verbatim>\<open>del dfas[j]\<close>, then every
  state still in the list redirects its arcs from \<^verbatim>\<open>state_j\<close> to \<^verbatim>\<open>state_i\<close>.
\<close>

definition unify_at :: "DFAState list \<Rightarrow> nat \<Rightarrow> nat \<Rightarrow> DFAState list" where
  "unify_at dfas i j =
     (let state_i = dfas ! i; state_j = dfas ! j;
          dfas' = take j dfas @ drop (Suc j) dfas
      in map (\<lambda>state. unifystate state (sid state_j) (sid state_i)) dfas')"

text \<open>
  The inner loop \<^verbatim>\<open>for j in range(i + 1, len(dfas))\<close> stops at the first \<open>j\<close> whose
  state equals \<^verbatim>\<open>state_i\<close>; its \<^verbatim>\<open>break\<close> leaves the inner loop only.
\<close>

definition find_equal :: "DFAState list \<Rightarrow> nat \<Rightarrow> nat option" where
  "find_equal dfas i = find (\<lambda>j. DFAState_eq (dfas ! i) (dfas ! j)) [Suc i ..< length dfas]"

lemma length_unify_at_le: "length (unify_at dfas i j) \<le> length dfas"
  by (simp add: unify_at_def Let_def)

text \<open>
  The outer loop \<^verbatim>\<open>for i, state_i in enumerate(dfas)\<close> goes on with the next index
  after a merge, on the list as it is then.
\<close>

function simplify_pass :: "DFAState list \<Rightarrow> nat \<Rightarrow> bool \<Rightarrow> DFAState list \<times> bool" where
  "simplify_pass dfas i changes =
     (if i < length dfas then
        (case find_equal dfas i of
           None \<Rightarrow> simplify_pass dfas (Suc i) changes
         | Some j \<Rightarrow> simplify_pass (unify_at dfas i j) (Suc i) True)
      else (dfas, changes))"
  by pat_completeness auto
termination simplify_pass
proof (relation "measure (\<lambda>(dfas, i, changes). length dfas - i)", goal_cases)
  case 1
  show ?case by simp
next
  case (2 dfas i changes)
  then show ?case by simp
next
  case (3 dfas i changes j)
  then show ?case using length_unify_at_le [of dfas i j] by simp
qed

text \<open>
  \<^verbatim>\<open>while changes\<close>: the loop state is the list and the flag; each round resets the
  flag and runs one pass.
\<close>

definition simplify_dfas :: "DFAState list \<Rightarrow> DFAState list option" where
  "simplify_dfas dfas =
     map_option fst
       (while_option snd (\<lambda>(dfas, changes). simplify_pass dfas 0 False) (dfas, True))"

subsection \<open>First sets: \<^verbatim>\<open>_addfirstsets\<close> and \<^verbatim>\<open>_calcfirst\<close>\<close>

text \<open>
  \<^verbatim>\<open>self.dfas\<close> maps a rule name to the list of its DFA states. \<^verbatim>\<open>self._first\<close> maps
  a rule name to \<^verbatim>\<open>None\<close> while the first set of the rule is being computed (value
  \<open>None\<close> here, under a present key) and to the first set afterwards; a first set is a
  dictionary with values \<open>1\<close>, the list of its keys.
\<close>

type_synonym rule_to_dfas = "(label \<times> DFAState list) list"
type_synonym first_table = "(label \<times> label list option) list"

text \<open>\<^verbatim>\<open>d[k] = 1\<close> on a dictionary used as a set.\<close>

definition set_add :: "'a \<Rightarrow> 'a list \<Rightarrow> 'a list" where
  "set_add k d = (if k \<in> set d then d else d @ [k])"

text \<open>
  The second loop of \<^verbatim>\<open>_calcfirst\<close>: \<^verbatim>\<open>inverse\<close> maps every symbol seen to the arc
  label that contributed it; a symbol contributed twice raises \<^verbatim>\<open>ValueError\<close> with the
  rule, the symbol, the current label and the earlier one.
\<close>

definition overlap_symbol :: "label \<Rightarrow> label \<Rightarrow> label \<Rightarrow> (label \<times> label) list
    \<Rightarrow> error + (label \<times> label) list" where
  "overlap_symbol name label symbol inverse' =
     (case map_of inverse' symbol of
        Some other \<Rightarrow> Inl (ValueError_ambiguous name symbol label other)
      | None \<Rightarrow> Inr (AList.update symbol label inverse'))"

definition overlap_check :: "label \<Rightarrow> (label \<times> label list) list
    \<Rightarrow> error + (label \<times> label) list" where
  "overlap_check name overlapcheck =
     foldM (\<lambda>(label, itsfirst). foldM (overlap_symbol name label) itsfirst) overlapcheck []"

text \<open>
  \<^verbatim>\<open>_calcfirst\<close> and its first loop, over the arcs of the start state. The loop threads
  \<^verbatim>\<open>self._first\<close>, \<^verbatim>\<open>totalset\<close> and \<^verbatim>\<open>overlapcheck\<close>. After a nested call
  returns, \<^verbatim>\<open>self._first[label]\<close> is read again: a missing key would be a
  \<^verbatim>\<open>KeyError\<close>, and \<^verbatim>\<open>totalset.update(None)\<close> a \<^verbatim>\<open>TypeError\<close>.
\<close>

function calcfirst :: "rule_to_dfas \<Rightarrow> label \<Rightarrow> first_table \<Rightarrow> error + first_table"
  and calcfirst_arcs :: "rule_to_dfas \<Rightarrow> label \<Rightarrow> (label \<times> nat) list \<Rightarrow> first_table
    \<Rightarrow> label list \<Rightarrow> (label \<times> label list) list
    \<Rightarrow> error + first_table \<times> label list \<times> (label \<times> label list) list"
where
  "calcfirst dfas name first =
     (case map_of dfas name of
        None \<Rightarrow> Inl (KeyError name)
      | Some dfa \<Rightarrow>
          (case dfa of
             [] \<Rightarrow> Inl IndexError
           | state # _ \<Rightarrow>
               (case calcfirst_arcs dfas name (arcs state) (AList.update name None first) [] [] of
                  Inl e \<Rightarrow> Inl e
                | Inr (first', totalset, overlapcheck) \<Rightarrow>
                    (case overlap_check name overlapcheck of
                       Inl e \<Rightarrow> Inl e
                     | Inr inverse' \<Rightarrow> Inr (AList.update name (Some totalset) first')))))"
| "calcfirst_arcs dfas name [] first totalset overlapcheck = Inr (first, totalset, overlapcheck)"
| "calcfirst_arcs dfas name ((label, nxt) # rest) first totalset overlapcheck =
     (if map_of dfas label \<noteq> None then
        (case map_of first label of
           Some None \<Rightarrow> Inl (ValueError_recursion name)
         | Some (Some fset) \<Rightarrow>
             calcfirst_arcs dfas name rest first (fold set_add fset totalset)
               (AList.update label fset overlapcheck)
         | None \<Rightarrow>
             (case calcfirst dfas label first of
                Inl e \<Rightarrow> Inl e
              | Inr first' \<Rightarrow>
                  (case map_of first' label of
                     None \<Rightarrow> Inl (KeyError label)
                   | Some None \<Rightarrow> Inl TypeError
                   | Some (Some fset) \<Rightarrow>
                       calcfirst_arcs dfas name rest first' (fold set_add fset totalset)
                         (AList.update label fset overlapcheck))))
      else
        calcfirst_arcs dfas name rest first (set_add label totalset)
          (AList.update label [label] overlapcheck))"
  by pat_completeness auto

text \<open>
  A call never removes a key of \<^verbatim>\<open>self._first\<close>; the nested call is made for a rule
  that has no key yet, and the caller's key is set before the loop. So the number of
  rules without a key decreases along the recursion.
\<close>

lemma keys_update: "fst ` set (AList.update k v al) = insert k (fst ` set al)"
  by (simp add: dom_update)

lemma calcfirst_keys_dom:
  "calcfirst_calcfirst_arcs_dom (Inl (dfas, name, first)) \<Longrightarrow>
     calcfirst dfas name first = Inr first' \<Longrightarrow> fst ` set first \<subseteq> fst ` set first'"
  "calcfirst_calcfirst_arcs_dom (Inr (dfas, name, as, first, ts, oc)) \<Longrightarrow>
     calcfirst_arcs dfas name as first ts oc = Inr (first', ts', oc') \<Longrightarrow>
     fst ` set first \<subseteq> fst ` set first'"
proof (induction dfas name first and dfas name as first ts oc
    arbitrary: first' and first' ts' oc' rule: calcfirst_calcfirst_arcs.pinduct)
  case (1 dfas name first)
  note dom = 1(1) and IH = 1(2) and res = 1(3)
  from res obtain state rest f1 ts oc where a: "map_of dfas name = Some (state # rest)"
    "calcfirst_arcs dfas name (arcs state) (AList.update name None first) [] [] = Inr (f1, ts, oc)"
    "first' = AList.update name (Some ts) f1"
    unfolding calcfirst.psimps [OF dom]
    by (auto split: option.splits list.splits sum.splits prod.splits)
  from IH [OF a(1) refl a(2)] have "fst ` set (AList.update name None first) \<subseteq> fst ` set f1" .
  then show ?case using a(3) by (auto simp: keys_update)
next
  case (2 dfas name first totalset overlapcheck)
  then show ?case by (simp add: calcfirst_arcs.psimps)
next
  case (3 dfas name label nxt rest first totalset overlapcheck)
  note dom = 3(1) and IHP = 3(2) and IHQ1 = 3(3) and IHQ2 = 3(4) and IHQ3 = 3(5) and res = 3(6)
  note eq = calcfirst_arcs.psimps(2) [OF dom]
  show ?case
  proof (cases "map_of dfas label")
    case None
    with res have "calcfirst_arcs dfas name rest first (set_add label totalset)
        (AList.update label [label] overlapcheck) = Inr (first', ts', oc')"
      unfolding eq by simp
    from IHQ3 [OF _ this] None show ?thesis by simp
  next
    case d: (Some d)
    then have dn: "map_of dfas label \<noteq> None" by simp
    show ?thesis
    proof (cases "map_of first label")
      case None
      with res dn obtain b fset where b: "calcfirst dfas label first = Inr b"
        "map_of b label = Some (Some fset)"
        "calcfirst_arcs dfas name rest b (fold set_add fset totalset)
           (AList.update label fset overlapcheck) = Inr (first', ts', oc')"
        unfolding eq by (auto split: sum.splits option.splits)
      from IHP [OF dn None b(1)] IHQ1 [OF dn None b(1) b(2) refl b(3)]
      show ?thesis by (rule subset_trans)
    next
      case (Some v)
      with res dn obtain fset where v: "v = Some fset"
        "calcfirst_arcs dfas name rest first (fold set_add fset totalset)
           (AList.update label fset overlapcheck) = Inr (first', ts', oc')"
        unfolding eq by (auto split: option.splits)
      from IHQ2 [OF dn Some v(1) v(2)] show ?thesis .
    qed
  qed
qed

termination calcfirst
proof (relation "inv_image (less_than <*lex*> less_than <*lex*> less_than) (\<lambda>x. case x of
          Inl (dfas, name, first) \<Rightarrow>
            (card (fst ` set dfas - fst ` set first),
             if name \<in> fst ` set first then 2 else 0 :: nat, 0 :: nat)
        | Inr (dfas, name, as, first, ts, oc) \<Rightarrow>
            (card (fst ` set dfas - fst ` set first), 1, length as))", goal_cases)
  case 1
  show ?case by (intro wf_inv_image wf_lex_prod wf_less_than)
next
  case (2 dfas name first dfa state rest)
  have n: "name \<in> fst ` set dfas" using 2(1) by (force dest: map_of_SomeD)
  show ?case
  proof (cases "name \<in> fst ` set first")
    case True
    then have "insert name (fst ` set first) = fst ` set first" by auto
    with True show ?thesis by (simp add: keys_update)
  next
    case False
    with n have "fst ` set dfas - insert name (fst ` set first) \<subset> fst ` set dfas - fst ` set first"
      by auto
    then have "card (fst ` set dfas - insert name (fst ` set first))
        < card (fst ` set dfas - fst ` set first)"
      by (intro psubset_card_mono) auto
    then show ?thesis by (simp add: keys_update)
  qed
next
  case (3 dfas name label nxt rest first totalset overlapcheck)
  then have "label \<notin> fst ` set first" by (simp add: map_of_eq_None_iff)
  then show ?case by simp
next
  case (4 dfas name label nxt rest first totalset overlapcheck first' x2 fset)
  have "fst ` set first \<subseteq> fst ` set first'" using calcfirst_keys_dom(1) [OF 4(6) 4(3)] .
  then have "fst ` set dfas - fst ` set first' \<subseteq> fst ` set dfas - fst ` set first" by auto
  then have "card (fst ` set dfas - fst ` set first') \<le> card (fst ` set dfas - fst ` set first)"
    by (intro card_mono) auto
  then show ?case by auto
next
  case 5
  then show ?case by simp
next
  case 6
  then show ?case by simp
qed

text \<open>\<^verbatim>\<open>_addfirstsets\<close>, starting from the empty \<^verbatim>\<open>self._first\<close> of \<^verbatim>\<open>make_grammar\<close>.\<close>

definition addfirstsets :: "rule_to_dfas \<Rightarrow> error + first_table" where
  "addfirstsets dfas =
     foldM (\<lambda>name first. if map_of first name = None then calcfirst dfas name first else Inr first)
       (sort (map fst dfas)) []"

subsection \<open>The grammar tables\<close>

text \<open>
  The class \<^verbatim>\<open>Grammar\<close> is declared in \<^verbatim>\<open>pgen2/grammar.py\<close>; \<^verbatim>\<open>make_grammar\<close>
  gets its instance as a parameter and reads and writes the fields below. The fields
  \<^verbatim>\<open>states\<close>, \<^verbatim>\<open>dfas\<close> and \<^verbatim>\<open>keywords\<close> are \<open>gstates\<close>, \<open>gdfas\<close> and \<open>gkeywords\<close>
  here. A first set in \<open>gdfas\<close> is a dictionary with values \<open>1\<close>, the list of its keys.
\<close>

record Grammar =
  symbol2number :: "(label \<times> int) list"
  number2symbol :: "(int \<times> label) list"
  gstates :: "(nat \<times> nat) list list list"
  gdfas :: "(int \<times> (nat \<times> nat) list list \<times> nat list) list"
  labels :: "(int \<times> string option) list"
  gkeywords :: "(string \<times> nat) list"
  tokens :: "(int \<times> nat) list"
  symbol2label :: "(label \<times> nat) list"
  label2symbol :: "(nat \<times> label) list"
  start_symbol :: "label option"

text \<open>
  Modelled from the spec: the constructor of \<^verbatim>\<open>Grammar\<close>, which is not in the source
  at hand. The tables are empty, and label id \<open>0\<close> is the reserved entry.
\<close>

definition Grammar_init :: "label option \<Rightarrow> Grammar" where
  "Grammar_init start =
     \<lparr>symbol2number = [], number2symbol = [], gstates = [], gdfas = [],
      labels = [(0, Some ''EMPTY'')], gkeywords = [], tokens = [],
      symbol2label = [], label2symbol = [], start_symbol = start\<rparr>"

text \<open>
  What \<^verbatim>\<open>_make_label\<close> takes from outside the file: the token namespace
  (\<^verbatim>\<open>getattr(self._token_namespace, label, None)\<close>, here \<open>None\<close> also when the attribute
  is not an \<^verbatim>\<open>int\<close>, and \<^verbatim>\<open>generate_token_id\<close>, which may raise), the constant
  \<^verbatim>\<open>token.NAME\<close>, and Python's \<^verbatim>\<open>eval\<close> on a label.
\<close>

record pgen_env =
  getattr_int :: "label \<Rightarrow> int option"
  generate_token_id :: "string \<Rightarrow> error + int"
  token_NAME :: int
  py_eval :: "label \<Rightarrow> error + string"

text \<open>
  \<^verbatim>\<open>str.isalpha\<close> on one character. A character here is a code point below 256, and
  the letters among these are the ASCII letters, \<open>0xAA\<close>, \<open>0xB5\<close>, \<open>0xBA\<close> and
  \<open>0xC0\<close> to \<open>0xFF\<close> without the signs \<open>0xD7\<close> and \<open>0xF7\<close>.
\<close>

definition isalpha :: "char \<Rightarrow> bool" where
  "isalpha c =
     (let n = of_char c :: nat
      in (65 \<le> n \<and> n \<le> 90) \<or> (97 \<le> n \<and> n \<le> 122) \<or> n = 170 \<or> n = 181 \<or> n = 186 \<or>
         (192 \<le> n \<and> n \<le> 214) \<or> (216 \<le> n \<and> n \<le> 246) \<or> (248 \<le> n \<and> n \<le> 255))"

subsection \<open>The label classifier: \<^verbatim>\<open>_make_label\<close>\<close>

text \<open>
  \<^verbatim>\<open>label[0]\<close> and \<^verbatim>\<open>value[0]\<close> raise \<^verbatim>\<open>IndexError\<close> on an empty string. The
  function returns the grammar as it is after the call, with the label id.
\<close>

definition make_label :: "pgen_env \<Rightarrow> Grammar \<Rightarrow> label \<Rightarrow> error + Grammar \<times> nat" where
  "make_label env grammar label =
     (let ilabel = length (labels grammar) in
      case label of
        [] \<Rightarrow> Inl IndexError
      | c # _ \<Rightarrow>
          if isalpha c then
            (case map_of (symbol2number grammar) label of
               Some number \<Rightarrow>
                 (case map_of (symbol2label grammar) label of
                    Some i \<Rightarrow> Inr (grammar, i)
                  | None \<Rightarrow>
                      Inr (grammar
                        \<lparr>labels := labels grammar @ [(number, None)],
                         symbol2label := AList.update label ilabel (symbol2label grammar),
                         label2symbol := AList.update ilabel label (label2symbol grammar)\<rparr>,
                        ilabel))
             | None \<Rightarrow>
                 (case getattr_int env label of
                    None \<Rightarrow> Inl AssertionError
                  | Some itoken \<Rightarrow>
                      (case map_of (tokens grammar) itoken of
                         Some i \<Rightarrow> Inr (grammar, i)
                       | None \<Rightarrow>
                           Inr (grammar
                             \<lparr>labels := labels grammar @ [(itoken, None)],
                              tokens := AList.update itoken ilabel (tokens grammar)\<rparr>,
                             ilabel))))
          else if c \<noteq> CHR 0x22 \<and> c \<noteq> CHR 0x27 then Inl AssertionError
          else
            (case py_eval env label of
               Inl e \<Rightarrow> Inl e
             | Inr val \<Rightarrow>
                 (case val of
                    [] \<Rightarrow> Inl IndexError
                  | v # _ \<Rightarrow>
                      if isalpha v then
                        (case map_of (gkeywords grammar) val of
                           Some i \<Rightarrow> Inr (grammar, i)
                         | None \<Rightarrow>
                             Inr (grammar
                               \<lparr>labels := labels grammar @ [(token_NAME env, Some val)],
                                gkeywords := AList.update val ilabel (gkeywords grammar)\<rparr>,
                               ilabel))
                      else
                        (case generate_token_id env val of
                           Inl e \<Rightarrow> Inl e
                         | Inr itoken \<Rightarrow>
                             (case map_of (tokens grammar) itoken of
                                Some i \<Rightarrow> Inr (grammar, i)
                              | None \<Rightarrow>
                                  Inr (grammar
                                    \<lparr>labels := labels grammar @ [(itoken, None)],
                                     tokens := AList.update itoken ilabel (tokens grammar)\<rparr>,
                                    ilabel))))))"

subsection \<open>\<^verbatim>\<open>_make_first\<close>\<close>

text \<open>
  One round of the loop: \<^verbatim>\<open>first[ilabel] = 1\<close>, with the assertion commented out in
  the source left out.
\<close>

definition make_first_label :: "pgen_env \<Rightarrow> label \<Rightarrow> Grammar \<times> nat list
    \<Rightarrow> error + Grammar \<times> nat list" where
  "make_first_label env label = (\<lambda>(grammar, first).
     case make_label env grammar label of
       Inl e \<Rightarrow> Inl e
     | Inr (grammar', ilabel) \<Rightarrow> Inr (grammar', set_add ilabel first))"

definition make_first :: "pgen_env \<Rightarrow> first_table \<Rightarrow> Grammar \<Rightarrow> label
    \<Rightarrow> error + Grammar \<times> nat list" where
  "make_first env first grammar name =
     (case map_of first name of
        None \<Rightarrow> Inl (KeyError name)
      | Some None \<Rightarrow> Inl TypeError
      | Some (Some rawfirst) \<Rightarrow> foldM (make_first_label env) rawfirst (grammar, []))"

subsection \<open>\<^verbatim>\<open>make_grammar\<close>\<close>

text \<open>
  \<^verbatim>\<open>dfa.index(next)\<close> is the first index whose element is the object \<^verbatim>\<open>next\<close> or
  equals it by \<^verbatim>\<open>__eq__\<close>. An arc holds the identity of its target, so the fields of
  the target are those of the state of the list with that identity; an identity that no
  state of the list has is outside what the lists here can express, and yields an error.
\<close>

definition dfa_index :: "DFAState list \<Rightarrow> nat \<Rightarrow> error + nat" where
  "dfa_index dfa ref =
     (case find (\<lambda>s. sid s = ref) dfa of
        None \<Rightarrow> Inl ValueError_not_in_list
      | Some x \<Rightarrow>
          (case find (\<lambda>k. sid (dfa ! k) = ref \<or> DFAState_eq (dfa ! k) x) [0 ..< length dfa] of
             None \<Rightarrow> Inl ValueError_not_in_list
           | Some k \<Rightarrow> Inr k))"

text \<open>One arc, one state and one rule of the second loop of \<^verbatim>\<open>make_grammar\<close>.\<close>

definition make_arc :: "pgen_env \<Rightarrow> DFAState list \<Rightarrow> label \<times> nat
    \<Rightarrow> Grammar \<times> (nat \<times> nat) list \<Rightarrow> error + Grammar \<times> (nat \<times> nat) list" where
  "make_arc env dfa = (\<lambda>(label, nxt) (grammar, arcs').
     case make_label env grammar label of
       Inl e \<Rightarrow> Inl e
     | Inr (grammar', ilabel) \<Rightarrow>
         (case dfa_index dfa nxt of
            Inl e \<Rightarrow> Inl e
          | Inr k \<Rightarrow> Inr (grammar', arcs' @ [(ilabel, k)])))"

definition make_state :: "pgen_env \<Rightarrow> DFAState list \<Rightarrow> DFAState
    \<Rightarrow> Grammar \<times> (nat \<times> nat) list list \<Rightarrow> error + Grammar \<times> (nat \<times> nat) list list" where
  "make_state env dfa state = (\<lambda>(grammar, states').
     case foldM (make_arc env dfa) (arcs state) (grammar, []) of
       Inl e \<Rightarrow> Inl e
     | Inr (grammar', arcs') \<Rightarrow>
         if isfinal state then
           (case dfa_index dfa (sid state) of
              Inl e \<Rightarrow> Inl e
            | Inr k \<Rightarrow> Inr (grammar', states' @ [arcs' @ [(0, k)]]))
         else Inr (grammar', states' @ [arcs']))"

definition make_rule :: "pgen_env \<Rightarrow> rule_to_dfas \<Rightarrow> first_table \<Rightarrow> label \<Rightarrow> Grammar
    \<Rightarrow> error + Grammar" where
  "make_rule env dfas first name grammar =
     (case map_of dfas name of
        None \<Rightarrow> Inl (KeyError name)
      | Some dfa \<Rightarrow>
          (case foldM (make_state env dfa) dfa (grammar, []) of
             Inl e \<Rightarrow> Inl e
           | Inr (grammar1, states') \<Rightarrow>
               (case make_first env first (grammar1\<lparr>gstates := gstates grammar1 @ [states']\<rparr>) name of
                  Inl e \<Rightarrow> Inl e
                | Inr (grammar2, first') \<Rightarrow>
                    (case map_of (symbol2number grammar2) name of
                       None \<Rightarrow> Inl (KeyError name)
                     | Some number \<Rightarrow>
                         Inr (grammar2
                           \<lparr>gdfas := AList.update number (states', first') (gdfas grammar2)\<rparr>)))))"

text \<open>One round of the first loop of \<^verbatim>\<open>make_grammar\<close>.\<close>

definition number_symbol :: "label \<Rightarrow> Grammar \<Rightarrow> Grammar" where
  "number_symbol name grammar =
     (let i = 256 + int (length (symbol2number grammar))
      in grammar\<lparr>symbol2number := AList.update name i (symbol2number grammar),
                 number2symbol := AList.update i name (number2symbol grammar)\<rparr>)"

definition make_grammar :: "pgen_env \<Rightarrow> rule_to_dfas \<Rightarrow> Grammar \<Rightarrow> error + Grammar" where
  "make_grammar env dfas grammar =
     (case addfirstsets dfas of
        Inl e \<Rightarrow> Inl e
      | Inr first \<Rightarrow>
          (let names = sort (map fst dfas)
           in foldM (make_rule env dfas first) names (fold number_symbol names grammar)))"

subsection \<open>\<^verbatim>\<open>generate_grammar\<close>\<close>

text \<open>
  \<^verbatim>\<open>GrammarParser(bnf_grammar).parse()\<close> is outside the file; it yields, per rule, the
  start and the finish state of the rule's NFA, whose field \<^verbatim>\<open>from_rule\<close> is the
  rule's name. The result is \<open>None\<close> only if a loop of the conversion did not end.
\<close>

record nfa_fragment =
  from_rule :: label
  arena :: nfa
  nfa_a :: nat
  nfa_z :: nat

definition convert_rule :: "nfa_fragment \<Rightarrow> (error + rule_to_dfas) option
    \<Rightarrow> (error + rule_to_dfas) option" where
  "convert_rule frag acc =
     (case acc of
        None \<Rightarrow> None
      | Some (Inl e) \<Rightarrow> Some (Inl e)
      | Some (Inr rule_to_dfas) \<Rightarrow>
          (case make_dfas (arena frag) (nfa_a frag) (nfa_z frag) of
             None \<Rightarrow> None
           | Some (Inl e) \<Rightarrow> Some (Inl e)
           | Some (Inr dfas) \<Rightarrow>
               (case simplify_dfas dfas of
                  None \<Rightarrow> None
                | Some dfas' \<Rightarrow> Some (Inr (AList.update (from_rule frag) dfas' rule_to_dfas)))))"

definition generate_grammar :: "pgen_env \<Rightarrow> nfa_fragment list \<Rightarrow> (error + Grammar) option" where
  "generate_grammar env frags =
     (case fold convert_rule frags (Some (Inr [])) of
        None \<Rightarrow> None
      | Some (Inl e) \<Rightarrow> Some (Inl e)
      | Some (Inr rule_to_dfas) \<Rightarrow>
          Some (make_grammar env rule_to_dfas
            (Grammar_init (case frags of [] \<Rightarrow> None | frag # _ \<Rightarrow> Some (from_rule frag)))))"

subsection \<open>Well-formed rule automata\<close>

text \<open>
  Every arc of a closed automaton leads to a state of the automaton.
\<close>

definition closed_dfas :: "DFAState list \<Rightarrow> bool" where
  "closed_dfas d = list_all (\<lambda>s. list_all (\<lambda>(l, t). t \<in> sid ` set d) (arcs s)) d"

subsection \<open>Example automata\<close>

text \<open>
  A literal of the grammar keeps its quotes in the label, as the tokenizer delivers it.
\<close>

definition squote :: "string \<Rightarrow> label" where
  "squote s = CHR 0x27 # s @ [CHR 0x27]"

definition dquote :: "string \<Rightarrow> label" where
  "dquote s = CHR 0x22 # s @ [CHR 0x22]"

text \<open>
  The NFA of \<^verbatim>\<open>start: ('a' | 'b') 'c'\<close>, built as the grammar parser does: an
  alternative gets a fresh start and a fresh end state joined to the branches by epsilon
  arcs, a sequence joins its items by an epsilon arc. Start state \<open>2\<close>, finish state \<open>7\<close>.
\<close>

definition merge_nfa :: nfa where
  "merge_nfa =
     [[(Some (squote ''a''), 1)], [(None, 3)], [(None, 0), (None, 4)], [(None, 6)],
      [(Some (squote ''b''), 5)], [(None, 3)], [(Some (squote ''c''), 7)], []]"

text \<open>
  Its automaton before minimisation: the states reached on \<^verbatim>\<open>'a'\<close> and on
  \<^verbatim>\<open>'b'\<close> have the same arcs.
\<close>

definition merge_example :: "DFAState list" where
  "merge_example =
     [\<lparr>sid = 0, nfaset = [2, 0, 4], isfinal = False,
        arcs = [(squote ''a'', 1), (squote ''b'', 2)]\<rparr>,
      \<lparr>sid = 1, nfaset = [1, 3, 6], isfinal = False, arcs = [(squote ''c'', 3)]\<rparr>,
      \<lparr>sid = 2, nfaset = [5, 3, 6], isfinal = False, arcs = [(squote ''c'', 3)]\<rparr>,
      \<lparr>sid = 3, nfaset = [7], isfinal = True, arcs = []\<rparr>]"

text \<open>The same automaton after minimisation.\<close>

definition merge_example_result :: "DFAState list" where
  "merge_example_result =
     [\<lparr>sid = 0, nfaset = [2, 0, 4], isfinal = False,
        arcs = [(squote ''a'', 1), (squote ''b'', 1)]\<rparr>,
      \<lparr>sid = 1, nfaset = [1, 3, 6], isfinal = False, arcs = [(squote ''c'', 3)]\<rparr>,
      \<lparr>sid = 3, nfaset = [7], isfinal = True, arcs = []\<rparr>]"

subsection \<open>Example grammars\<close>

text \<open>
  \<^verbatim>\<open>eval\<close> on a string literal without escapes: the text between the quotes. A
  token namespace with four named tokens, in which the operators \<^verbatim>\<open><>\<close> and
  \<^verbatim>\<open>!=\<close> have the same id.
\<close>

definition eval_literal :: "label \<Rightarrow> error + string" where
  "eval_literal label =
     (case label of
        [] \<Rightarrow> Inl (SyntaxError label)
      | q # rest \<Rightarrow>
          if (q = CHR 0x22 \<or> q = CHR 0x27) \<and> rest \<noteq> [] \<and> last rest = q \<and> q \<notin> set (butlast rest)
             \<and> CHR 0x5C \<notin> set rest
          then Inr (butlast rest) else Inl (SyntaxError label))"

definition example_env :: pgen_env where
  "example_env =
     \<lparr>getattr_int = map_of [(''ENDMARKER'', 0), (''NAME'', 1), (''NUMBER'', 2), (''STRING'', 3)],
      generate_token_id = (\<lambda>s. Inr (if s = ''<>'' \<or> s = ''!='' then 29 else 100 + int (length s))),
      token_NAME = 1,
      py_eval = eval_literal\<rparr>"

text \<open>
  The NFA of \<^verbatim>\<open>a: a 'x' | 'y'\<close>, of a rule with one item, and of a rule with two
  alternatives of one item each.
\<close>

definition leftrec_nfa :: nfa_fragment where
  "leftrec_nfa = \<lparr>from_rule = ''a'',
     arena = [[(None, 1), (None, 5)], [(Some ''a'', 2)], [(None, 3)], [(Some (squote ''x''), 4)],
              [(None, 7)], [(Some (squote ''y''), 6)], [(None, 7)], []],
     nfa_a = 0, nfa_z = 7\<rparr>"


definition atom_nfa :: "label \<Rightarrow> label \<Rightarrow> nfa_fragment" where
  "atom_nfa name label = \<lparr>from_rule = name, arena = [[(Some label, 1)], []], nfa_a = 0, nfa_z = 1\<rparr>"

definition alt_nfa :: "label \<Rightarrow> label \<Rightarrow> label \<Rightarrow> nfa_fragment" where
  "alt_nfa name l1 l2 = \<lparr>from_rule = name,
     arena = [[(None, 1), (None, 3)], [(Some l1, 2)], [(None, 5)], [(Some l2, 4)], [(None, 5)], []],
     nfa_a = 0, nfa_z = 5\<rparr>"

subsection \<open>Invariants of the subset construction\<close>

text \<open>
  The states that an arc of the arena can lead to; all members of a DFA state other than
  the start state are among them.
\<close>

definition nfa_targets :: "nfa \<Rightarrow> nat set" where
  "nfa_targets nfa = snd ` (\<Union>as \<in> set nfa. set as)"

text \<open>
  The candidate sets of one DFA state: a dictionary (distinct labels) of non-empty sets
  of arc targets.
\<close>

definition moves_ok :: "nfa \<Rightarrow> (label \<times> nat list) list \<Rightarrow> bool" where
  "moves_ok nfa ms \<longleftrightarrow>
     distinct (map fst ms) \<and> (\<forall>(l, m) \<in> set ms. m \<noteq> [] \<and> set m \<subseteq> nfa_targets nfa)"

text \<open>
  What holds of the list of DFA states throughout \<^verbatim>\<open>_make_dfas\<close>: the object at
  index \<open>k\<close> has identity \<open>k\<close>, the first one is the closure of the start state, no two
  states have the same set of NFA states, \<open>isfinal\<close> is as the constructor set it, the
  arcs of a state have distinct labels and lead to states of the list.
\<close>

definition dfas_inv :: "nfa \<Rightarrow> nat \<Rightarrow> nat \<Rightarrow> DFAState list \<Rightarrow> bool" where
  "dfas_inv nfa start finish states \<longleftrightarrow>
     states \<noteq> [] \<and>
     map sid states = [0 ..< length states] \<and>
     nfaset (states ! 0) = closure nfa start \<and>
     distinct (map (\<lambda>s. set (nfaset s)) states) \<and>
     (\<forall>s \<in> set states.
        nfaset s \<noteq> [] \<and> isfinal s = (finish \<in> set (nfaset s)) \<and>
        set (nfaset s) \<subseteq> insert start (nfa_targets nfa) \<and>
        distinct (map fst (arcs s)) \<and>
        (\<forall>t \<in> snd ` set (arcs s). t < length states))"

text \<open>
  The invariant of the loop: no error has occurred, and the states from the loop index on
  have no arcs yet.
\<close>

definition make_dfas_inv :: "nfa \<Rightarrow> nat \<Rightarrow> nat \<Rightarrow> error + DFAState list \<times> nat \<Rightarrow> bool" where
  "make_dfas_inv nfa start finish s =
     (case s of
        Inl e \<Rightarrow> False
      | Inr (states, i) \<Rightarrow>
          dfas_inv nfa start finish states \<and> i \<le> length states \<and>
          (\<forall>k. i \<le> k \<and> k < length states \<longrightarrow> arcs (states ! k) = []))"

text \<open>
  An automaton in which a later state equals the start state: the state reached on
  \<^verbatim>\<open>'a'\<close> loops to itself on \<^verbatim>\<open>'a'\<close>, as the start state's arc does, and both
  are final (the shape of \<^verbatim>\<open>start: 'a'*\<close>).
\<close>

definition loop_example :: "DFAState list" where
  "loop_example =
     [\<lparr>sid = 0, nfaset = [0, 1], isfinal = True, arcs = [(squote ''a'', 1)]\<rparr>,
      \<lparr>sid = 1, nfaset = [2, 1], isfinal = True, arcs = [(squote ''a'', 1)]\<rparr>]"

subsection \<open>Auxiliary notions for the table assembler\<close>

text \<open>The two symbol tables of a grammar.\<close>

definition symbols_of :: "Grammar \<Rightarrow> (label \<times> int) list \<times> (int \<times> label) list" where
  "symbols_of g = (symbol2number g, number2symbol g)"

text \<open>The automaton of a rule with one item, as \<^verbatim>\<open>_make_dfas\<close> builds it.\<close>

definition atom_dfa :: "label \<Rightarrow> DFAState list" where
  "atom_dfa label =
     [\<lparr>sid = 0, nfaset = [0], isfinal = False, arcs = [(label, 1)]\<rparr>,
      \<lparr>sid = 1, nfaset = [1], isfinal = True, arcs = []\<rparr>]"

text \<open>
  The rules \<^verbatim>\<open>b: 'x'\<close> and \<^verbatim>\<open>a: b\<close>, in this order in the rule table, and the
  grammar that \<^verbatim>\<open>make_grammar\<close> builds from them.
\<close>

definition chain_rules :: rule_to_dfas where
  "chain_rules = [(''b'', atom_dfa (squote ''x'')), (''a'', atom_dfa ''b'')]"

definition chain_grammar :: "label option \<Rightarrow> Grammar" where
  "chain_grammar s =
     \<lparr>symbol2number = [(''a'', 256), (''b'', 257)],
      number2symbol = [(256, ''a''), (257, ''b'')],
      gstates = [[[(1, 1)], [(0, 1)]], [[(2, 1)], [(0, 1)]]],
      gdfas = [(256, [[(1, 1)], [(0, 1)]], [2]), (257, [[(2, 1)], [(0, 1)]], [2])],
      labels = [(0, Some ''EMPTY''), (257, None), (1, Some ''x'')],
      gkeywords = [(''x'', 2)], tokens = [], symbol2label = [(''b'', 1)],
      label2symbol = [(1, ''b'')], start_symbol = s\<rparr>"

subsection \<open>What the subset construction computes\<close>

text \<open>The epsilon arcs of an arena, and the set of states reached from a set of states on a label.\<close>

definition eps :: "nfa \<Rightarrow> (nat \<times> nat) set" where
  "eps nfa = {(p, q). (None, q) \<in> set (nfa_arcs nfa p)}"

definition move_set :: "nfa \<Rightarrow> nat set \<Rightarrow> label \<Rightarrow> nat set" where
  "move_set nfa M l = (eps nfa)\<^sup>* `` {q. \<exists>p \<in> M. (Some l, q) \<in> set (nfa_arcs nfa p)}"

text \<open>
  The candidate sets after the arcs \<open>A\<close> have been looked at: one entry per label of
  \<open>A\<close>, holding the closure of the targets of the arcs of \<open>A\<close> with that label.
\<close>

definition moves_inv :: "nfa \<Rightarrow> (label option \<times> nat) set \<Rightarrow> (label \<times> nat list) list \<Rightarrow> bool" where
  "moves_inv nfa A ms \<longleftrightarrow>
     distinct (map fst ms) \<and>
     (\<forall>l. (map_of ms l = None) = (\<forall>q. (Some l, q) \<notin> A)) \<and>
     (\<forall>l m. map_of ms l = Some m \<longrightarrow> set m = (eps nfa)\<^sup>* `` {q. (Some l, q) \<in> A})"

text \<open>
  The state at index \<open>k\<close> has been processed: it has one arc per candidate set, in the
  order of the candidate sets, to a state that has this set.
\<close>

definition arcs_done :: "nfa \<Rightarrow> DFAState list \<Rightarrow> nat \<Rightarrow> bool" where
  "arcs_done nfa states k \<longleftrightarrow>
     map fst (arcs (states ! k)) = map fst (state_moves nfa (nfaset (states ! k))) \<and>
     (\<forall>(l, t) \<in> set (arcs (states ! k)). t < length states \<and>
        (\<exists>m. map_of (state_moves nfa (nfaset (states ! k))) l = Some m \<and>
           set (nfaset (states ! t)) = set m))"

text \<open>
  The automaton of \<^verbatim>\<open>start: ('a' | 'b') 'c'\<close> at the moment when the third state is
  being processed and has no arc yet.
\<close>

definition merge_before :: "DFAState list" where
  "merge_before =
     [\<lparr>sid = 0, nfaset = [2, 0, 4], isfinal = False,
        arcs = [(squote ''a'', 1), (squote ''b'', 2)]\<rparr>,
      \<lparr>sid = 1, nfaset = [1, 3, 6], isfinal = False, arcs = [(squote ''c'', 3)]\<rparr>,
      \<lparr>sid = 2, nfaset = [5, 3, 6], isfinal = False, arcs = []\<rparr>,
      \<lparr>sid = 3, nfaset = [7], isfinal = True, arcs = []\<rparr>]"

(*PROPERTIES*)
section \<open>Properties\<close>

subsection \<open>The minimiser\<close>

lemma find_equal_SomeD:
  "find_equal dfas i = Some j \<Longrightarrow> i < j \<and> j < length dfas \<and> DFAState_eq (dfas ! i) (dfas ! j)"
  by (auto simp: find_equal_def find_Some_iff)

lemma find_equal_NoneD:
  "find_equal dfas i = None \<Longrightarrow> i < j \<Longrightarrow> j < length dfas \<Longrightarrow> \<not> DFAState_eq (dfas ! i) (dfas ! j)"
  by (auto simp: find_equal_def find_None_iff)

lemma length_unify_at: "j < length dfas \<Longrightarrow> length (unify_at dfas i j) + 1 = length dfas"
  by (simp add: unify_at_def Let_def)

lemma simplify_pass_cases:
  "simplify_pass dfas i c = (d', c') \<Longrightarrow> (c' = c \<and> d' = dfas) \<or> (c' \<and> length d' < length dfas)"
proof (induction dfas i c rule: simplify_pass.induct)
  case (1 dfas i changes)
  show ?case
  proof (cases "i < length dfas")
    case False
    with 1(3) show ?thesis by (simp add: simplify_pass.simps [of dfas i changes])
  next
    case True
    note lt = this
    show ?thesis
    proof (cases "find_equal dfas i")
      case None
      with lt 1(3) have "simplify_pass dfas (Suc i) changes = (d', c')"
        by (simp add: simplify_pass.simps [of dfas i changes])
      from 1(1) [OF lt None this] show ?thesis .
    next
      case (Some j)
      with lt 1(3) have "simplify_pass (unify_at dfas i j) (Suc i) True = (d', c')"
        by (simp add: simplify_pass.simps [of dfas i changes])
      from 1(2) [OF lt Some this] length_unify_at [of j dfas i] find_equal_SomeD [OF Some]
      show ?thesis by auto
    qed
  qed
qed

lemma simplify_pass_unchanged:
  "simplify_pass dfas i False = (d', False) \<Longrightarrow>
     d' = dfas \<and> (\<forall>k. i \<le> k \<and> k < length dfas \<longrightarrow> find_equal dfas k = None)"
proof (induction dfas i "False" rule: simplify_pass.induct)
  case (1 dfas i)
  show ?case
  proof (cases "i < length dfas")
    case False
    with 1(3) show ?thesis by (auto simp: simplify_pass.simps [of dfas i False])
  next
    case True
    note lt = this
    show ?thesis
    proof (cases "find_equal dfas i")
      case None
      with lt 1(3) have "simplify_pass dfas (Suc i) False = (d', False)"
        by (simp add: simplify_pass.simps [of dfas i False])
      from 1(1) [OF lt None this] None show ?thesis
        by (metis Suc_leI le_neq_implies_less)
    next
      case (Some j)
      with lt 1(3) have "simplify_pass (unify_at dfas i j) (Suc i) True = (d', False)"
        by (simp add: simplify_pass.simps [of dfas i False])
      from simplify_pass_cases [OF this] length_unify_at [of j dfas i] find_equal_SomeD [OF Some]
      show ?thesis by auto
    qed
  qed
qed

lemma simplify_pass_invariant:
  assumes step: "\<And>d i j. P d \<Longrightarrow> i < j \<Longrightarrow> j < length d \<Longrightarrow> DFAState_eq (d ! i) (d ! j) \<Longrightarrow> P (unify_at d i j)"
  shows "P dfas \<Longrightarrow> P (fst (simplify_pass dfas i c))"
proof (induction dfas i c rule: simplify_pass.induct)
  case (1 dfas i changes)
  show ?case
  proof (cases "i < length dfas")
    case False
    with 1(3) show ?thesis by (simp add: simplify_pass.simps [of dfas i changes])
  next
    case True
    note lt = this
    show ?thesis
    proof (cases "find_equal dfas i")
      case None
      with lt 1(1) [OF lt None 1(3)] show ?thesis
        by (simp add: simplify_pass.simps [of dfas i changes])
    next
      case (Some j)
      have "P (unify_at dfas i j)" using step [OF 1(3)] find_equal_SomeD [OF Some] by blast
      from 1(2) [OF lt Some this] lt Some show ?thesis
        by (simp add: simplify_pass.simps [of dfas i changes])
    qed
  qed
qed

lemma simplify_dfas_total: "\<exists>r. simplify_dfas dfas = Some r"
proof -
  have "\<exists>t. while_option snd (\<lambda>(dfas, changes). simplify_pass dfas 0 False) (dfas, True) = Some t"
  proof (rule measure_while_option_Some [where P = "\<lambda>s. True"
        and f = "\<lambda>(d, ch). 2 * length d + (if ch then 1 else 0)"], goal_cases)
    case (1 s)
    obtain d ch where s: "s = (d, ch)" by (cases s)
    obtain d' ch' where r: "simplify_pass d 0 False = (d', ch')" by (cases "simplify_pass d 0 False")
    from simplify_pass_cases [OF r] 1 s r show ?case by auto
  qed simp
  then show ?thesis by (auto simp: simplify_dfas_def)
qed

lemma simplify_dfas_rule:
  assumes res: "simplify_dfas dfas = Some r"
    and step: "\<And>d i j. P d \<Longrightarrow> i < j \<Longrightarrow> j < length d \<Longrightarrow> DFAState_eq (d ! i) (d ! j) \<Longrightarrow> P (unify_at d i j)"
    and init: "P dfas"
  shows "P r \<and> (\<forall>k < length r. find_equal r k = None)"
proof -
  let ?c = "\<lambda>(dfas, changes). simplify_pass dfas 0 False"
  let ?I = "\<lambda>(d, ch). P d \<and> (\<not> ch \<longrightarrow> (\<forall>k < length d. find_equal d k = None))"
  from res obtain t where t: "while_option snd ?c (dfas, True) = Some t" and r: "r = fst t"
    by (auto simp: simplify_dfas_def)
  have "?I t"
  proof (rule while_option_rule [where P = ?I, OF _ t])
    fix s assume I: "?I s" and b: "snd s"
    obtain d ch where s: "s = (d, ch)" by (cases s)
    obtain d' ch' where p: "simplify_pass d 0 False = (d', ch')" by (cases "simplify_pass d 0 False")
    have "P d'" using simplify_pass_invariant [of P d 0 False] step I s p by auto
    moreover have "\<not> ch' \<longrightarrow> (\<forall>k < length d'. find_equal d' k = None)"
      using simplify_pass_unchanged [of d 0 d'] p by auto
    ultimately show "?I (?c s)" using s p by simp
  next
    show "?I (dfas, True)" using init by simp
  qed
  moreover have "\<not> snd t" using while_option_stop [OF t] .
  ultimately show ?thesis using r by (cases t) auto
qed

lemma DFAState_eq_iff:
  assumes a: "distinct (map fst (arcs a))" and b: "distinct (map fst (arcs b))"
  shows "DFAState_eq a b \<longleftrightarrow> isfinal a = isfinal b \<and> set (arcs a) = set (arcs b)"
proof
  assume e: "DFAState_eq a b"
  then have f: "isfinal a = isfinal b" and l: "length (arcs a) = length (arcs b)"
    and al: "\<forall>(l, n) \<in> set (arcs a). map_of (arcs b) l = Some n"
    by (auto simp: DFAState_eq_def list_all_iff split: if_splits)
  have sub: "set (arcs a) \<subseteq> set (arcs b)" using al by (auto dest: map_of_SomeD)
  have "distinct (arcs a)" "distinct (arcs b)" using a b by (auto simp: distinct_map)
  then have "card (set (arcs a)) = card (set (arcs b))" using l by (simp add: distinct_card)
  with sub have "set (arcs a) = set (arcs b)" by (intro card_subset_eq) auto
  with f show "isfinal a = isfinal b \<and> set (arcs a) = set (arcs b)" by simp
next
  assume r: "isfinal a = isfinal b \<and> set (arcs a) = set (arcs b)"
  have d: "distinct (arcs a)" "distinct (arcs b)" using a b by (auto simp: distinct_map)
  have "length (arcs a) = card (set (arcs a))" using d by (simp add: distinct_card)
  also have "\<dots> = card (set (arcs b))" using r by simp
  also have "\<dots> = length (arcs b)" using d by (simp add: distinct_card)
  finally have l: "length (arcs a) = length (arcs b)" .
  have "\<forall>(l, n) \<in> set (arcs a). map_of (arcs b) l = Some n"
    using r b by (auto intro: map_of_is_SomeI)
  with r l show "DFAState_eq a b" by (auto simp: DFAState_eq_def list_all_iff)
qed

lemma arcs_keys_unifystate: "map fst (arcs (unifystate s old new)) = map fst (arcs s)"
  by (induction "arcs s") (auto simp: unifystate_def)

lemma sid_unifystate: "sid (unifystate s old new) = sid s"
  and nfaset_unifystate: "nfaset (unifystate s old new) = nfaset s"
  and isfinal_unifystate: "isfinal (unifystate s old new) = isfinal s"
  by (simp_all add: unifystate_def)

lemma set_unify_at:
  "set (unify_at d i j) \<subseteq> (\<lambda>s. unifystate s (sid (d ! j)) (sid (d ! i))) ` set d"
  by (auto simp: unify_at_def Let_def dest: in_set_takeD in_set_dropD)

lemma unify_at_keys:
  "\<forall>s \<in> set d. distinct (map fst (arcs s)) \<Longrightarrow> \<forall>s \<in> set (unify_at d i j). distinct (map fst (arcs s))"
  using set_unify_at [of d i j] by (auto simp: arcs_keys_unifystate)

lemma map_sid_unify_at:
  "map sid (unify_at d i j) = take j (map sid d) @ drop (Suc j) (map sid d)"
  by (simp add: unify_at_def Let_def take_map drop_map sid_unifystate comp_def)

lemma distinct_take_drop_Suc:
  assumes "distinct xs"
  shows "distinct (take j xs @ drop (Suc j) xs)"
proof -
  have "distinct (take j xs @ drop j xs)" using assms by simp
  then have "set (take j xs) \<inter> set (drop j xs) = {}" by (simp only: distinct_append)
  moreover have "set (drop (Suc j) xs) \<subseteq> set (drop j xs)"
    by (rule set_drop_subset_set_drop) simp
  ultimately have "set (take j xs) \<inter> set (drop (Suc j) xs) = {}" by blast
  with assms show ?thesis by simp
qed

lemma distinct_sid_unify_at:
  "distinct (map sid d) \<Longrightarrow> distinct (map sid (unify_at d i j))"
  unfolding map_sid_unify_at by (rule distinct_take_drop_Suc)

text \<open>
  Claim C8. \<^verbatim>\<open>_simplify_dfas\<close> terminates on every state list: the
  \<^verbatim>\<open>while\<close> loop returns a result; one round of it either merges, and then the list
  is strictly shorter, or reports no change and leaves the list as it is (which ends the
  loop); and every merge removes exactly one state.
\<close>

theorem simplify_dfas_terminates:
  "(\<exists>r. simplify_dfas dfas = Some r) \<and>
   (case simplify_pass dfas 0 False of
      (dfas', changes) \<Rightarrow> if changes then length dfas' < length dfas else dfas' = dfas) \<and>
   (\<forall>i j. find_equal dfas i = Some j \<longrightarrow> length (unify_at dfas i j) + 1 = length dfas)"
proof (intro conjI allI impI)
  show "\<exists>r. simplify_dfas dfas = Some r" by (rule simplify_dfas_total)
next
  obtain d' ch' where p: "simplify_pass dfas 0 False = (d', ch')"
    by (cases "simplify_pass dfas 0 False")
  from simplify_pass_cases [OF p] p
  show "case simplify_pass dfas 0 False of
      (dfas', changes) \<Rightarrow> if changes then length dfas' < length dfas else dfas' = dfas"
    by auto
next
  fix i j assume "find_equal dfas i = Some j"
  then have "j < length dfas" by (simp add: find_equal_SomeD)
  then show "length (unify_at dfas i j) + 1 = length dfas" by (rule length_unify_at)
qed

lemma merge_example_find: "find_equal merge_example 1 = Some 2"
  by code_simp

theorem simplify_dfas_terminates_witness:
  "find_equal merge_example 1 = Some 2 \<and>
   length (unify_at merge_example 1 2) + 1 = length merge_example \<and>
   (\<exists>r. simplify_dfas merge_example = Some r) \<and>
   fst (simplify_pass merge_example 0 False) \<noteq> merge_example"
proof -
  have f: "find_equal merge_example 1 = Some 2" by (rule merge_example_find)
  have "snd (simplify_pass merge_example 0 False)" by code_simp
  with f simplify_dfas_terminates [of merge_example] show ?thesis
    by (auto split: prod.splits)
qed

lemma set_take_drop_Suc:
  "j < length xs \<Longrightarrow> set xs = insert (xs ! j) (set (take j xs @ drop (Suc j) xs))"
proof -
  assume "j < length xs"
  then have "xs = take j xs @ xs ! j # drop (Suc j) xs" by (rule id_take_nth_drop)
  then have "set xs = set (take j xs @ xs ! j # drop (Suc j) xs)" by simp
  then show ?thesis by simp
qed

lemma sids_unify_at:
  assumes "j < length d"
  shows "sid ` set d \<subseteq> insert (sid (d ! j)) (sid ` set (unify_at d i j))"
proof -
  have "sid ` set (unify_at d i j) = set (take j (map sid d) @ drop (Suc j) (map sid d))"
    using map_sid_unify_at [of d i j] by (metis set_map)
  moreover have "set (map sid d) = insert (map sid d ! j) (set (take j (map sid d) @ drop (Suc j) (map sid d)))"
    using assms by (intro set_take_drop_Suc) simp
  ultimately show ?thesis using assms by auto
qed

lemma survivor_unify_at:
  assumes "i < j" "j < length d"
  shows "sid (d ! i) \<in> sid ` set (unify_at d i j)"
proof -
  have "d ! i \<in> set (take j d)" using assms by (auto simp: in_set_conv_nth intro!: exI [of _ i])
  then have "unifystate (d ! i) (sid (d ! j)) (sid (d ! i)) \<in> set (unify_at d i j)"
    by (simp add: unify_at_def Let_def)
  then have "sid (unifystate (d ! i) (sid (d ! j)) (sid (d ! i))) \<in> sid ` set (unify_at d i j)"
    by (rule imageI)
  then show ?thesis by (simp add: sid_unifystate)
qed

lemma targets_unifystate:
  "snd ` set (arcs (unifystate s old new)) \<subseteq> insert new (snd ` set (arcs s) - {old})"
  by (force simp: unifystate_def split: if_splits)

lemma no_old_target_unifystate:
  "old \<noteq> new \<Longrightarrow> old \<notin> snd ` set (arcs (unifystate s old new))"
  by (auto simp: unifystate_def split: if_splits)

lemma closed_dfas_iff:
  "closed_dfas d \<longleftrightarrow> (\<forall>s \<in> set d. snd ` set (arcs s) \<subseteq> sid ` set d)"
  by (fastforce simp: closed_dfas_def list_all_iff)

lemma closed_unify_at:
  assumes c: "closed_dfas d" and ij: "i < j" "j < length d"
  shows "closed_dfas (unify_at d i j)"
  unfolding closed_dfas_iff
proof (intro ballI subsetI)
  fix s' t assume s': "s' \<in> set (unify_at d i j)" and t: "t \<in> snd ` set (arcs s')"
  from s' set_unify_at [of d i j] obtain s where s: "s \<in> set d"
    and e: "s' = unifystate s (sid (d ! j)) (sid (d ! i))" by auto
  from t e targets_unifystate [of s "sid (d ! j)" "sid (d ! i)"]
  have "t = sid (d ! i) \<or> (t \<in> snd ` set (arcs s) \<and> t \<noteq> sid (d ! j))" by auto
  then show "t \<in> sid ` set (unify_at d i j)"
  proof
    assume "t = sid (d ! i)"
    then show ?thesis using survivor_unify_at [OF ij] by simp
  next
    assume a: "t \<in> snd ` set (arcs s) \<and> t \<noteq> sid (d ! j)"
    with c s have "t \<in> sid ` set d" by (auto simp: closed_dfas_iff)
    with a sids_unify_at [OF ij(2), of i] show ?thesis by auto
  qed
qed

lemma unify_at_no_target:
  assumes "sid (d ! i) \<noteq> sid (d ! j)" and "s \<in> set (unify_at d i j)"
  shows "sid (d ! j) \<notin> snd ` set (arcs s)"
proof -
  from assms(2) set_unify_at [of d i j] obtain s0 where
    "s = unifystate s0 (sid (d ! j)) (sid (d ! i))" by auto
  then show ?thesis using no_old_target_unifystate [of "sid (d ! j)" "sid (d ! i)" s0] assms(1)
    by simp
qed

lemma arcs_unify_at:
  "map arcs (unify_at d i j) =
     map (\<lambda>s. map (\<lambda>(l, t). (l, if t = sid (d ! j) then sid (d ! i) else t)) (arcs s))
       (take j d @ drop (Suc j) d)"
  by (simp add: unify_at_def Let_def unifystate_def)

text \<open>
  Claim C5. When \<^verbatim>\<open>_simplify_dfas\<close> returns, no two states at different positions
  of the list are equal, neither by \<^verbatim>\<open>__eq__\<close> nor by the structural test (same
  \<open>isfinal\<close>, same set of arcs with targets compared by identity; \<open>nfaset\<close> plays no
  part). Every merge leaves no arc to the deleted state among the remaining states: each arc
  that led to it leads to the surviving state. Hence a closed automaton stays closed.
  The arcs of a state are a dictionary, so their labels are distinct.
\<close>

theorem simplify_dfas_no_equal_states:
  assumes res: "simplify_dfas dfas = Some r"
    and keys: "\<forall>s \<in> set dfas. distinct (map fst (arcs s))"
  shows "(\<forall>i j. i < length r \<and> j < length r \<and> i \<noteq> j \<longrightarrow>
            \<not> DFAState_eq (r ! i) (r ! j) \<and>
            \<not> (isfinal (r ! i) = isfinal (r ! j) \<and> set (arcs (r ! i)) = set (arcs (r ! j)))) \<and>
         (distinct (map sid dfas) \<and> closed_dfas dfas \<longrightarrow> distinct (map sid r) \<and> closed_dfas r) \<and>
         (\<forall>d i j. i < j \<and> j < length d \<and> sid (d ! i) \<noteq> sid (d ! j) \<longrightarrow>
            (\<forall>s \<in> set (unify_at d i j). sid (d ! j) \<notin> snd ` set (arcs s)) \<and>
            map arcs (unify_at d i j) =
              map (\<lambda>s. map (\<lambda>(l, t). (l, if t = sid (d ! j) then sid (d ! i) else t)) (arcs s))
                (take j d @ drop (Suc j) d))"
proof (intro conjI allI impI)
  fix i j assume ij: "i < length r \<and> j < length r \<and> i \<noteq> j"
  have k: "(\<forall>s \<in> set r. distinct (map fst (arcs s))) \<and> (\<forall>k < length r. find_equal r k = None)"
    by (rule simplify_dfas_rule [where P = "\<lambda>d. \<forall>s \<in> set d. distinct (map fst (arcs s))", OF res _ keys])
      (rule unify_at_keys)
  then have di: "distinct (map fst (arcs (r ! i)))" and dj: "distinct (map fst (arcs (r ! j)))"
    using ij by auto
  have ne: "\<not> DFAState_eq (r ! i) (r ! j)"
  proof (cases "i < j")
    case True
    with k ij show ?thesis by (auto dest: find_equal_NoneD)
  next
    case False
    with ij have "j < i" by simp
    with k ij have "\<not> DFAState_eq (r ! j) (r ! i)" by (auto dest: find_equal_NoneD)
    then show ?thesis using DFAState_eq_iff [OF di dj] DFAState_eq_iff [OF dj di] by auto
  qed
  then show "\<not> DFAState_eq (r ! i) (r ! j)" .
  from ne show "\<not> (isfinal (r ! i) = isfinal (r ! j) \<and> set (arcs (r ! i)) = set (arcs (r ! j)))"
    using DFAState_eq_iff [OF di dj] by simp
next
  assume a: "distinct (map sid dfas) \<and> closed_dfas dfas"
  have "(distinct (map sid r) \<and> closed_dfas r) \<and> (\<forall>k < length r. find_equal r k = None)"
    by (rule simplify_dfas_rule [where P = "\<lambda>d. distinct (map sid d) \<and> closed_dfas d", OF res _ a])
      (simp add: distinct_sid_unify_at closed_unify_at)
  then show "distinct (map sid r)" "closed_dfas r" by simp_all
next
  fix d :: "DFAState list" and i j
  assume a: "i < j \<and> j < length d \<and> sid (d ! i) \<noteq> sid (d ! j)"
  then show "\<forall>s \<in> set (unify_at d i j). sid (d ! j) \<notin> snd ` set (arcs s)"
    using unify_at_no_target [of d i j] by blast
  show "map arcs (unify_at d i j) =
      map (\<lambda>s. map (\<lambda>(l, t). (l, if t = sid (d ! j) then sid (d ! i) else t)) (arcs s))
        (take j d @ drop (Suc j) d)"
    by (rule arcs_unify_at)
qed

lemma merge_example_simplified: "simplify_dfas merge_example = Some merge_example_result"
  by code_simp

lemma merge_example_keys: "\<forall>s \<in> set merge_example. distinct (map fst (arcs s))"
  by (simp add: merge_example_def squote_def)

lemma merge_example_closed: "distinct (map sid merge_example) \<and> closed_dfas merge_example"
  by code_simp

theorem simplify_dfas_no_equal_states_witness:
  "simplify_dfas merge_example = Some merge_example_result \<and>
   list_all (\<lambda>s. distinct (map fst (arcs s))) merge_example \<and>
   \<not> DFAState_eq (merge_example_result ! 0) (merge_example_result ! 1) \<and>
   \<not> DFAState_eq (merge_example_result ! 1) (merge_example_result ! 2) \<and>
   \<not> DFAState_eq (merge_example_result ! 2) (merge_example_result ! 0) \<and>
   closed_dfas merge_example_result \<and>
   list_all (\<lambda>s. 2 \<notin> snd ` set (arcs s)) (unify_at merge_example 1 2)"
proof -
  have l: "length merge_example_result = 3" "length merge_example = 4"
    "sid (merge_example ! 1) = 1" "sid (merge_example ! 2) = 2"
    by (simp_all add: merge_example_result_def merge_example_def)
  note t = simplify_dfas_no_equal_states [OF merge_example_simplified merge_example_keys]
  note t1 = t [THEN conjunct1, rule_format]
  note t2 = t [THEN conjunct2, THEN conjunct1, rule_format]
  note t3 = t [THEN conjunct2, THEN conjunct2, rule_format, of 1 2 merge_example, THEN conjunct1]
  have a: "\<not> DFAState_eq (merge_example_result ! 0) (merge_example_result ! 1)"
    "\<not> DFAState_eq (merge_example_result ! 1) (merge_example_result ! 2)"
    "\<not> DFAState_eq (merge_example_result ! 2) (merge_example_result ! 0)"
    using t1 [of 0 1] t1 [of 1 2] t1 [of 2 0] l by simp_all
  have c: "closed_dfas merge_example_result" using t2 merge_example_closed by simp
  have u: "list_all (\<lambda>s. 2 \<notin> snd ` set (arcs s)) (unify_at merge_example 1 2)"
    using t3 l by (simp add: list_all_iff)
  show ?thesis
    using merge_example_simplified merge_example_keys a c u
    by (simp add: list_all_iff)
qed

subsection \<open>Subset construction\<close>

declare addclosure.simps [simp del]

lemma nfa_arcs_subset: "set (nfa_arcs nfa s) \<subseteq> (\<Union>as \<in> set nfa. set as)"
  by (auto simp: nfa_arcs_def intro!: bexI [of _ "nfa ! s"])

lemma addclosure_grows:
  "set base \<subseteq> set (addclosure nfa state base)"
  "set base \<subseteq> set (addclosure_arcs nfa as base)"
  by (induction nfa state base and nfa as base rule: addclosure_addclosure_arcs.induct)
    (auto simp: addclosure.simps)

lemma addclosure_self: "state \<in> set (addclosure nfa state base)"
  using addclosure_grows(2) [of "base @ [state]" nfa "nfa_arcs nfa state"]
  by (auto simp: addclosure.simps)

lemma addclosure_nonempty: "addclosure nfa state base \<noteq> []"
  using addclosure_self [of state nfa base] by auto

lemma addclosure_subset:
  "set (addclosure nfa state base) \<subseteq> set base \<union> insert state (nfa_targets nfa)"
  "set as \<subseteq> (\<Union>as \<in> set nfa. set as) \<Longrightarrow>
     set (addclosure_arcs nfa as base) \<subseteq> set base \<union> nfa_targets nfa"
proof (induction nfa state base and nfa as base rule: addclosure_addclosure_arcs.induct)
  case (1 nfa state base)
  then show ?case using nfa_arcs_subset [of nfa state]
    by (auto simp: addclosure.simps)
next
  case (2 nfa base)
  then show ?case by simp
next
  case (3 nfa nxt rest base)
  from 3(3) have n: "nxt \<in> nfa_targets nfa" by (force simp: nfa_targets_def)
  from 3(3) have r: "set rest \<subseteq> (\<Union>as \<in> set nfa. set as)" by simp
  from 3(1) 3(2) [OF r] n show ?case by auto
next
  case (4 nfa l nxt rest base)
  then show ?case by simp
qed

lemma addclosure_distinct:
  "distinct base \<Longrightarrow> distinct (addclosure nfa state base)"
  "distinct base \<Longrightarrow> distinct (addclosure_arcs nfa as base)"
  by (induction nfa state base and nfa as base rule: addclosure_addclosure_arcs.induct)
    (auto simp: addclosure.simps)

lemma set_AList_update: "set (AList.update k v al) \<subseteq> insert (k, v) (set al)"
  by (induction al) auto

lemma fold_invariant:
  assumes "P s" and "\<And>x s. x \<in> set xs \<Longrightarrow> P s \<Longrightarrow> P (f x s)"
  shows "P (fold f xs s)"
  using assms by (induction xs arbitrary: s) auto

lemma move_arc_ok:
  assumes ok: "moves_ok nfa ms" and a: "a \<in> (\<Union>as \<in> set nfa. set as)"
  shows "moves_ok nfa (move_arc nfa a ms)"
proof (cases a)
  case (Pair label nxt)
  show ?thesis
  proof (cases label)
    case None
    with Pair ok show ?thesis by (simp add: move_arc_def)
  next
    case (Some l)
    define base where "base = (case map_of ms l of None \<Rightarrow> [] | Some b \<Rightarrow> b)"
    have nxt: "nxt \<in> nfa_targets nfa" using a Pair by (force simp: nfa_targets_def)
    have "set base \<subseteq> nfa_targets nfa"
      using ok by (auto simp: base_def moves_ok_def split: option.splits dest!: map_of_SomeD)
    with nxt addclosure_subset(1) [of nfa nxt base]
    have v: "set (addclosure nfa nxt base) \<subseteq> nfa_targets nfa" by auto
    have e: "move_arc nfa a ms = AList.update l (addclosure nfa nxt base) ms"
      using Pair Some by (simp add: move_arc_def base_def)
    have "\<forall>(l, m) \<in> insert (l, addclosure nfa nxt base) (set ms). m \<noteq> [] \<and> set m \<subseteq> nfa_targets nfa"
      using ok v addclosure_nonempty [of nfa nxt base] by (auto simp: moves_ok_def)
    then have "\<forall>(l, m) \<in> set (AList.update l (addclosure nfa nxt base) ms). m \<noteq> [] \<and> set m \<subseteq> nfa_targets nfa"
      using set_AList_update [of l "addclosure nfa nxt base" ms] by blast
    then show ?thesis unfolding e using ok by (simp add: moves_ok_def distinct_update)
  qed
qed

lemma state_moves_ok: "moves_ok nfa (state_moves nfa members)"
  unfolding state_moves_def
proof (rule fold_invariant)
  show "moves_ok nfa []" by (simp add: moves_ok_def)
next
  fix x s assume "moves_ok nfa s"
  then show "moves_ok nfa (fold (move_arc nfa) (nfa_arcs nfa x) s)"
    by (rule fold_invariant) (use nfa_arcs_subset [of nfa x] in \<open>auto intro: move_arc_ok\<close>)
qed

lemma map_list_update_same:
  "f x = f (xs ! i) \<Longrightarrow> map f (xs[i := x]) = map f xs"
  by (simp add: map_update list_update_same_conv) (metis list_update_beyond list_update_id map_update not_le_imp_less nth_map length_map)

lemma add_arc_at_Inr:
  "add_arc_at states i t l = Inr states' \<longleftrightarrow>
     l \<notin> fst ` set (arcs (states ! i)) \<and>
     states' = states[i := (states ! i)\<lparr>arcs := arcs (states ! i) @ [(l, t)]\<rparr>]"
  by (auto simp: add_arc_at_def add_arc_def)

lemma find_nfaset_Some:
  "find (\<lambda>st. set (nfaset st) = set m) states = Some st \<Longrightarrow> st \<in> set states \<and> set (nfaset st) = set m"
  by (auto simp: find_Some_iff)

lemma add_target_cases:
  assumes "add_target finish i (l, m) states = Inr states'"
  obtains (old) st where "st \<in> set states" "set (nfaset st) = set m"
      "states' = states[i := (states ! i)\<lparr>arcs := arcs (states ! i) @ [(l, sid st)]\<rparr>]"
      "l \<notin> fst ` set (arcs (states ! i))"
    | (new) "\<forall>st \<in> set states. set (nfaset st) \<noteq> set m" "m \<noteq> []"
      "states' = (states @ [\<lparr>sid = length states, nfaset = m, isfinal = (finish \<in> set m), arcs = []\<rparr>])
          [i := ((states @ [\<lparr>sid = length states, nfaset = m, isfinal = (finish \<in> set m), arcs = []\<rparr>]) ! i)
             \<lparr>arcs := arcs ((states @ [\<lparr>sid = length states, nfaset = m, isfinal = (finish \<in> set m), arcs = []\<rparr>]) ! i) @ [(l, length states)]\<rparr>]"
      "l \<notin> fst ` set (arcs ((states @ [\<lparr>sid = length states, nfaset = m, isfinal = (finish \<in> set m), arcs = []\<rparr>]) ! i))"
proof (cases "find (\<lambda>st. set (nfaset st) = set m) states")
  case None
  then have n: "\<forall>st \<in> set states. set (nfaset st) \<noteq> set m" by (auto simp: find_None_iff)
  from assms None have ne: "m \<noteq> []"
    by (auto simp: add_target_def DFAState_init_def split: if_splits)
  from assms None ne show ?thesis
    by (intro new [OF n ne]) (auto simp: add_target_def DFAState_init_def add_arc_at_Inr)
next
  case (Some st)
  from assms Some find_nfaset_Some [OF Some] show ?thesis
    by (intro old [of st]) (auto simp: add_target_def add_arc_at_Inr)
qed

lemma sid_index:
  assumes "map sid states = [0 ..< length states]" "st \<in> set states"
  shows "sid st < length states"
proof -
  from assms(2) obtain k where k: "k < length states" "st = states ! k"
    by (auto simp: in_set_conv_nth)
  then have "sid st = map sid states ! k" by simp
  also have "\<dots> = k" using assms(1) k by simp
  finally show ?thesis using k by simp
qed

lemma dfas_inv_add_arc:
  assumes inv: "dfas_inv nfa start finish states"
    and i: "i < length states"
    and l: "l \<notin> fst ` set (arcs (states ! i))"
    and t: "t < length states"
  shows "dfas_inv nfa start finish (states[i := (states ! i)\<lparr>arcs := arcs (states ! i) @ [(l, t)]\<rparr>])"
proof -
  let ?s = "(states ! i)\<lparr>arcs := arcs (states ! i) @ [(l, t)]\<rparr>"
  let ?r = "states[i := ?s]"
  have m1: "map sid ?r = map sid states" by (rule map_list_update_same) simp
  have m2: "map nfaset ?r = map nfaset states" by (rule map_list_update_same) simp
  have m3: "map (\<lambda>s. set (nfaset s)) ?r = map (\<lambda>s. set (nfaset s)) states"
    by (rule map_list_update_same) simp
  have si: "states ! i \<in> set states" using i by simp
  have "nfaset (?r ! 0) = map nfaset ?r ! 0" using i by (subst nth_map) auto
  also have "\<dots> = nfaset (states ! 0)" using i unfolding m2 by (subst nth_map) auto
  finally have z: "nfaset (?r ! 0) = closure nfa start" using inv by (simp add: dfas_inv_def)
  have el: "\<And>s. s \<in> set ?r \<Longrightarrow> s = ?s \<or> s \<in> set states"
    using set_update_subset_insert [of states i ?s] by auto
  have q: "nfaset ?s \<noteq> [] \<and> isfinal ?s = (finish \<in> set (nfaset ?s)) \<and>
        set (nfaset ?s) \<subseteq> insert start (nfa_targets nfa) \<and>
        distinct (map fst (arcs ?s)) \<and>
        (\<forall>t \<in> snd ` set (arcs ?s). t < length states)"
    using inv si l t unfolding dfas_inv_def by auto
  show ?thesis
    unfolding dfas_inv_def
  proof (intro conjI ballI)
    show "?r \<noteq> []" using i by auto
    show "map sid ?r = [0 ..< length ?r]" using inv m1 by (simp add: dfas_inv_def)
    show "nfaset (?r ! 0) = closure nfa start" by (rule z)
    show "distinct (map (\<lambda>s. set (nfaset s)) ?r)" using inv m3 by (simp add: dfas_inv_def)
  next
    fix s assume "s \<in> set ?r"
    then have c: "s = ?s \<or> s \<in> set states" by (rule el)
    then show "nfaset s \<noteq> []" using q inv unfolding dfas_inv_def by blast
    from c show "isfinal s = (finish \<in> set (nfaset s))" using q inv unfolding dfas_inv_def by blast
    from c show "set (nfaset s) \<subseteq> insert start (nfa_targets nfa)"
      using q inv unfolding dfas_inv_def by blast
    from c show "distinct (map fst (arcs s))" using q inv unfolding dfas_inv_def by blast
    fix t' assume "t' \<in> snd ` set (arcs s)"
    with c show "t' < length ?r" using q inv unfolding dfas_inv_def by auto
  qed
qed

lemma dfas_inv_append:
  assumes inv: "dfas_inv nfa start finish states"
    and n: "\<forall>st \<in> set states. set (nfaset st) \<noteq> set m"
    and m: "m \<noteq> []" "set m \<subseteq> nfa_targets nfa"
  shows "dfas_inv nfa start finish
      (states @ [\<lparr>sid = length states, nfaset = m, isfinal = (finish \<in> set m), arcs = []\<rparr>])"
  using assms unfolding dfas_inv_def
  by (auto simp: nth_append less_Suc_eq)

lemma add_target_step:
  assumes inv: "dfas_inv nfa start finish states"
    and i: "i < length states"
    and l: "l \<notin> fst ` set (arcs (states ! i))"
    and m: "m \<noteq> []" "set m \<subseteq> nfa_targets nfa"
    and tl: "\<forall>k. i < k \<and> k < length states \<longrightarrow> arcs (states ! k) = []"
  shows "\<exists>states' t. add_target finish i (l, m) states = Inr states' \<and>
      dfas_inv nfa start finish states' \<and> length states \<le> length states' \<and>
      arcs (states' ! i) = arcs (states ! i) @ [(l, t)] \<and>
      (\<forall>k. i < k \<and> k < length states' \<longrightarrow> arcs (states' ! k) = [])"
proof (cases "find (\<lambda>st. set (nfaset st) = set m) states")
  case (Some st)
  let ?r = "states[i := (states ! i)\<lparr>arcs := arcs (states ! i) @ [(l, sid st)]\<rparr>]"
  from find_nfaset_Some [OF Some] have st: "st \<in> set states" by simp
  have t: "sid st < length states" using inv st by (auto simp: dfas_inv_def intro: sid_index)
  have e: "add_target finish i (l, m) states = Inr ?r"
    using Some l by (simp add: add_target_def add_arc_at_Inr)
  have "dfas_inv nfa start finish ?r" by (rule dfas_inv_add_arc [OF inv i l t])
  moreover have "arcs (?r ! i) = arcs (states ! i) @ [(l, sid st)]" using i by simp
  moreover have "\<forall>k. i < k \<and> k < length ?r \<longrightarrow> arcs (?r ! k) = []" using tl by simp
  ultimately show ?thesis using e by auto
next
  case None
  let ?n = "\<lparr>sid = length states, nfaset = m, isfinal = (finish \<in> set m), arcs = []\<rparr>"
  let ?s2 = "states @ [?n]"
  let ?r = "?s2[i := (?s2 ! i)\<lparr>arcs := arcs (?s2 ! i) @ [(l, length states)]\<rparr>]"
  have n: "\<forall>st \<in> set states. set (nfaset st) \<noteq> set m" using None by (auto simp: find_None_iff)
  have si: "?s2 ! i = states ! i" using i by (simp add: nth_append)
  have e: "add_target finish i (l, m) states = Inr ?r"
    using None l m(1) si by (simp add: add_target_def DFAState_init_def add_arc_at_Inr)
  have inv2: "dfas_inv nfa start finish ?s2" by (rule dfas_inv_append [OF inv n m])
  have "dfas_inv nfa start finish ?r"
    by (rule dfas_inv_add_arc [OF inv2]) (use i l si in auto)
  moreover have "arcs (?r ! i) = arcs (states ! i) @ [(l, length states)]" using i si by simp
  moreover have "\<forall>k. i < k \<and> k < length ?r \<longrightarrow> arcs (?r ! k) = []"
    using tl by (auto simp: nth_append)
  ultimately show ?thesis using e by auto
qed

lemma foldM_add_target:
  assumes "dfas_inv nfa start finish states" "i < length states"
    "distinct (map fst ms)" "\<forall>(l, m) \<in> set ms. m \<noteq> [] \<and> set m \<subseteq> nfa_targets nfa"
    "fst ` set (arcs (states ! i)) \<inter> fst ` set ms = {}"
    "\<forall>k. i < k \<and> k < length states \<longrightarrow> arcs (states ! k) = []"
  shows "\<exists>states'. foldM (add_target finish i) ms states = Inr states' \<and>
      dfas_inv nfa start finish states' \<and> length states \<le> length states' \<and>
      (\<forall>k. i < k \<and> k < length states' \<longrightarrow> arcs (states' ! k) = []) \<and>
      map fst (arcs (states' ! i)) = map fst (arcs (states ! i)) @ map fst ms"
  using assms
proof (induction ms arbitrary: states)
  case Nil
  then show ?case by simp
next
  case (Cons a ms)
  obtain l m where a: "a = (l, m)" by (cases a)
  from Cons.prems a have l: "l \<notin> fst ` set (arcs (states ! i))" by auto
  from Cons.prems a have m: "m \<noteq> []" "set m \<subseteq> nfa_targets nfa" by auto
  from add_target_step [OF Cons.prems(1,2) l m Cons.prems(6)]
  obtain s1 t where s1: "add_target finish i (l, m) states = Inr s1"
    "dfas_inv nfa start finish s1" "length states \<le> length s1"
    "arcs (s1 ! i) = arcs (states ! i) @ [(l, t)]"
    "\<forall>k. i < k \<and> k < length s1 \<longrightarrow> arcs (s1 ! k) = []" by blast
  have i1: "i < length s1" using Cons.prems(2) s1(3) by simp
  have d: "distinct (map fst ms)" using Cons.prems(3) by simp
  have v: "\<forall>(l, m) \<in> set ms. m \<noteq> [] \<and> set m \<subseteq> nfa_targets nfa" using Cons.prems(4) by simp
  have k: "fst ` set (arcs (s1 ! i)) \<inter> fst ` set ms = {}"
    using Cons.prems(3,5) a s1(4) by auto
  from Cons.IH [OF s1(2) i1 d v k s1(5)]
  obtain s2 where s2: "foldM (add_target finish i) ms s1 = Inr s2"
    "dfas_inv nfa start finish s2" "length s1 \<le> length s2"
    "\<forall>k. i < k \<and> k < length s2 \<longrightarrow> arcs (s2 ! k) = []"
    "map fst (arcs (s2 ! i)) = map fst (arcs (s1 ! i)) @ map fst ms" by blast
  show ?case
    using s1 s2 a by (intro exI [of _ s2]) simp
qed

lemma make_dfas_state_ok:
  assumes inv: "dfas_inv nfa start finish states" and i: "i < length states"
    and tl: "\<forall>k. i \<le> k \<and> k < length states \<longrightarrow> arcs (states ! k) = []"
  shows "\<exists>states'. make_dfas_state nfa finish i states = Inr states' \<and>
      dfas_inv nfa start finish states' \<and> length states \<le> length states' \<and>
      (\<forall>k. Suc i \<le> k \<and> k < length states' \<longrightarrow> arcs (states' ! k) = [])"
proof -
  let ?ms = "state_moves nfa (nfaset (states ! i))"
  have ok: "moves_ok nfa ?ms" by (rule state_moves_ok)
  have e: "arcs (states ! i) = []" using tl i by simp
  have "\<exists>states'. foldM (add_target finish i) ?ms states = Inr states' \<and>
      dfas_inv nfa start finish states' \<and> length states \<le> length states' \<and>
      (\<forall>k. i < k \<and> k < length states' \<longrightarrow> arcs (states' ! k) = []) \<and>
      map fst (arcs (states' ! i)) = map fst (arcs (states ! i)) @ map fst ?ms"
    by (rule foldM_add_target [OF inv i]) (use ok e tl in \<open>auto simp: moves_ok_def\<close>)
  then show ?thesis by (auto simp: make_dfas_state_def Suc_le_eq)
qed

lemma finite_nfa_targets: "finite (nfa_targets nfa)"
  by (simp add: nfa_targets_def)

lemma dfas_inv_length:
  assumes "dfas_inv nfa start finish states"
  shows "length states \<le> 2 ^ card (insert start (nfa_targets nfa))"
proof -
  let ?U = "insert start (nfa_targets nfa)"
  let ?xs = "map (\<lambda>s. set (nfaset s)) states"
  have f: "finite ?U" by (simp add: finite_nfa_targets)
  have "set ?xs \<subseteq> Pow ?U" using assms by (auto simp: dfas_inv_def)
  then have "card (set ?xs) \<le> card (Pow ?U)" using f by (intro card_mono) auto
  moreover have "distinct ?xs" using assms by (simp add: dfas_inv_def)
  then have "card (set ?xs) = length ?xs" by (rule distinct_card)
  then have "card (set ?xs) = length states" by simp
  ultimately show ?thesis using f by (simp add: card_Pow)
qed

lemma dfas_inv_init:
  "dfas_inv nfa start finish
     [\<lparr>sid = 0, nfaset = closure nfa start, isfinal = (finish \<in> set (closure nfa start)), arcs = []\<rparr>]"
  using addclosure_subset(1) [of nfa start "[]"] addclosure_nonempty [of nfa start "[]"]
  by (auto simp: dfas_inv_def closure_def)

lemma make_dfas_body_inv:
  assumes p: "make_dfas_inv nfa start finish s" and b: "make_dfas_cond s"
  shows "make_dfas_inv nfa start finish (make_dfas_body nfa finish s) \<and>
     (case make_dfas_body nfa finish s of Inl e \<Rightarrow> 0
        | Inr (states, i) \<Rightarrow> 2 ^ card (insert start (nfa_targets nfa)) - i)
     < (case s of Inl e \<Rightarrow> 0 | Inr (states, i) \<Rightarrow> 2 ^ card (insert start (nfa_targets nfa)) - i)"
proof -
  from p obtain states i where s: "s = Inr (states, i)"
    by (cases s) (auto simp: make_dfas_inv_def)
  from p s have inv: "dfas_inv nfa start finish states"
    and tl: "\<forall>k. i \<le> k \<and> k < length states \<longrightarrow> arcs (states ! k) = []"
    by (auto simp: make_dfas_inv_def)
  from b s have i: "i < length states" by (simp add: make_dfas_cond_def)
  from make_dfas_state_ok [OF inv i tl]
  obtain s' where s': "make_dfas_state nfa finish i states = Inr s'"
    "dfas_inv nfa start finish s'" "length states \<le> length s'"
    "\<forall>k. Suc i \<le> k \<and> k < length s' \<longrightarrow> arcs (s' ! k) = []" by blast
  have e: "make_dfas_body nfa finish s = Inr (s', Suc i)"
    using s s' by (simp add: make_dfas_body_def)
  have "i < 2 ^ card (insert start (nfa_targets nfa))"
    using dfas_inv_length [OF inv] i by simp
  then show ?thesis using e s s' i by (simp add: make_dfas_inv_def)
qed

lemma make_dfas_total:
  "\<exists>states. make_dfas nfa start finish = Some (Inr states) \<and> dfas_inv nfa start finish states"
proof -
  let ?s0 = "\<lparr>sid = 0, nfaset = closure nfa start,
      isfinal = (finish \<in> set (closure nfa start)), arcs = []\<rparr>"
  let ?init = "Inr ([?s0], 0) :: error + DFAState list \<times> nat"
  have i0: "DFAState_init 0 (closure nfa start) finish = Inr ?s0"
    using addclosure_nonempty [of nfa start "[]"] by (simp add: DFAState_init_def closure_def)
  have p0: "make_dfas_inv nfa start finish ?init"
    using dfas_inv_init [of nfa start finish] by (simp add: make_dfas_inv_def)
  have "\<exists>t. while_option make_dfas_cond (make_dfas_body nfa finish) ?init = Some t"
    by (rule measure_while_option_Some [where P = "make_dfas_inv nfa start finish"
          and f = "\<lambda>s. case s of Inl e \<Rightarrow> 0
            | Inr (states, i) \<Rightarrow> 2 ^ card (insert start (nfa_targets nfa)) - i"])
      (use make_dfas_body_inv p0 in blast)+
  then obtain t where t: "while_option make_dfas_cond (make_dfas_body nfa finish) ?init = Some t" ..
  have pt: "make_dfas_inv nfa start finish t"
    by (rule while_option_rule [where P = "make_dfas_inv nfa start finish", OF _ t p0])
      (use make_dfas_body_inv in blast)
  then obtain states i where ti: "t = Inr (states, i)"
    by (cases t) (auto simp: make_dfas_inv_def)
  have "make_dfas nfa start finish = Some (Inr states)"
    using i0 t ti by (simp add: make_dfas_def)
  moreover have "dfas_inv nfa start finish states" using pt ti by (simp add: make_dfas_inv_def)
  ultimately show ?thesis by blast
qed

lemma add_target_result:
  assumes i: "i < length states0"
    and r: "add_target finish i (label, members) states0 = Inr states'"
  shows "(\<exists>st \<in> set states0. set (nfaset st) = set members \<and>
            map nfaset states' = map nfaset states0 \<and>
            arcs (states' ! i) = arcs (states0 ! i) @ [(label, sid st)]) \<or>
         ((\<forall>st \<in> set states0. set (nfaset st) \<noteq> set members) \<and>
            map nfaset states' = map nfaset states0 @ [members] \<and>
            arcs (states' ! i) = arcs (states0 ! i) @ [(label, sid (last states'))])"
  using r
proof (cases rule: add_target_cases)
  case (old st)
  have "map nfaset states' = map nfaset states0"
    unfolding old(3) by (rule map_list_update_same) simp
  moreover have "arcs (states' ! i) = arcs (states0 ! i) @ [(label, sid st)]"
    using i old(3) by simp
  ultimately show ?thesis using old(1,2) by blast
next
  case new
  let ?n = "\<lparr>sid = length states0, nfaset = members, isfinal = (finish \<in> set members), arcs = []\<rparr>"
  have si: "(states0 @ [?n]) ! i = states0 ! i" using i by (simp add: nth_append)
  have "map nfaset states' = map nfaset (states0 @ [?n])"
    unfolding new(3) by (rule map_list_update_same) simp
  then have m: "map nfaset states' = map nfaset states0 @ [members]" by simp
  have "last states' = ?n" using i unfolding new(3) by (simp add: last_list_update)
  then have l: "sid (last states') = length states0" by simp
  have "arcs (states' ! i) = arcs (states0 ! i) @ [(label, length states0)]"
    using i si unfolding new(3) by simp
  with m l new(1) show ?thesis by simp
qed

lemma merge_nfa_dfas: "make_dfas merge_nfa 2 7 = Some (Inr merge_example)"
  by code_simp

lemma addclosure_new_closed:
  "\<forall>p \<in> set (addclosure nfa state base) - set base.
     \<forall>q. (p, q) \<in> eps nfa \<longrightarrow> q \<in> set (addclosure nfa state base)"
  "(\<forall>p \<in> set (addclosure_arcs nfa as base) - set base.
      \<forall>q. (p, q) \<in> eps nfa \<longrightarrow> q \<in> set (addclosure_arcs nfa as base)) \<and>
   (\<forall>q. (None, q) \<in> set as \<longrightarrow> q \<in> set (addclosure_arcs nfa as base))"
proof (induction nfa state base and nfa as base rule: addclosure_addclosure_arcs.induct)
  case (1 nfa state base)
  show ?case
  proof (cases "state \<in> set base")
    case True
    then show ?thesis by (simp add: addclosure.simps)
  next
    case False
    let ?R = "addclosure_arcs nfa (nfa_arcs nfa state) (base @ [state])"
    have e: "addclosure nfa state base = ?R" using False by (simp add: addclosure.simps)
    note ih = 1 [OF False]
    have a: "\<forall>p \<in> set ?R - set (base @ [state]).
        \<forall>q. (p, q) \<in> eps nfa \<longrightarrow> q \<in> set ?R" by (rule ih [THEN conjunct1])
    have b: "\<forall>q. (None, q) \<in> set (nfa_arcs nfa state) \<longrightarrow> q \<in> set ?R"
      by (rule ih [THEN conjunct2])
    show ?thesis unfolding e
    proof (intro ballI allI impI)
      fix p q assume p: "p \<in> set ?R - set base" and pq: "(p, q) \<in> eps nfa"
      show "q \<in> set ?R"
      proof (cases "p = state")
        case True
        with pq have "(None, q) \<in> set (nfa_arcs nfa state)" by (simp add: eps_def)
        with b show ?thesis by (rule_tac mp [OF spec [OF b]])
      next
        case False
        with p have "p \<in> set ?R - set (base @ [state])" by simp
        with a pq show ?thesis by (rule_tac mp [OF spec [OF bspec [OF a]]])
      qed
    qed
  qed
next
  case (2 nfa base)
  then show ?case by simp
next
  case (3 nfa nxt rest base)
  let ?b1 = "addclosure nfa nxt base"
  let ?R = "addclosure_arcs nfa rest ?b1"
  have g: "set ?b1 \<subseteq> set ?R" by (rule addclosure_grows(2))
  have n: "nxt \<in> set ?R" using g addclosure_self [of nxt nfa base] by auto
  have a: "\<forall>p \<in> set ?b1 - set base. \<forall>q. (p, q) \<in> eps nfa \<longrightarrow> q \<in> set ?b1" by (rule 3(1))
  have b: "\<forall>p \<in> set ?R - set ?b1. \<forall>q. (p, q) \<in> eps nfa \<longrightarrow> q \<in> set ?R"
    by (rule 3(2) [THEN conjunct1])
  have c: "\<forall>q. (None, q) \<in> set rest \<longrightarrow> q \<in> set ?R" by (rule 3(2) [THEN conjunct2])
  have "\<forall>p \<in> set ?R - set base. \<forall>q. (p, q) \<in> eps nfa \<longrightarrow> q \<in> set ?R"
  proof (intro ballI allI impI)
    fix p q assume p: "p \<in> set ?R - set base" and pq: "(p, q) \<in> eps nfa"
    show "q \<in> set ?R"
    proof (cases "p \<in> set ?b1")
      case True
      with p have "p \<in> set ?b1 - set base" by simp
      from mp [OF spec [OF bspec [OF a this]] pq] have "q \<in> set ?b1" .
      with g show ?thesis by (rule_tac subsetD)
    next
      case False
      with p have "p \<in> set ?R - set ?b1" by simp
      from mp [OF spec [OF bspec [OF b this]] pq] show ?thesis .
    qed
  qed
  moreover have "\<forall>q. (None, q) \<in> set ((None, nxt) # rest) \<longrightarrow> q \<in> set ?R"
    using n c by simp
  ultimately show ?case by (simp only: addclosure_arcs.simps simp_thms)
next
  case (4 nfa l nxt rest base)
  then show ?case by simp
qed

lemma addclosure_reach:
  "set (addclosure nfa state base) \<subseteq> set base \<union> (eps nfa)\<^sup>* `` {state}"
  "set (addclosure_arcs nfa as base) \<subseteq> set base \<union> (eps nfa)\<^sup>* `` {q. (None, q) \<in> set as}"
proof (induction nfa state base and nfa as base rule: addclosure_addclosure_arcs.induct)
  case (1 nfa state base)
  show ?case
  proof (cases "state \<in> set base")
    case True
    then show ?thesis by (simp add: addclosure.simps)
  next
    case False
    have "(eps nfa)\<^sup>* `` {q. (None, q) \<in> set (nfa_arcs nfa state)} \<subseteq> (eps nfa)\<^sup>* `` {state}"
      by (auto simp: eps_def intro: converse_rtrancl_into_rtrancl)
    with 1 [OF False] False show ?thesis by (auto simp: addclosure.simps)
  qed
next
  case (2 nfa base)
  then show ?case by simp
next
  case (3 nfa nxt rest base)
  then show ?case by fastforce
next
  case (4 nfa l nxt rest base)
  then show ?case by auto
qed

lemma closed_contains_reach:
  assumes c: "\<forall>p \<in> R. \<forall>q. (p, q) \<in> r \<longrightarrow> q \<in> R" and s: "s \<in> R"
  shows "r\<^sup>* `` {s} \<subseteq> R"
proof
  fix t assume "t \<in> r\<^sup>* `` {s}"
  then have "(s, t) \<in> r\<^sup>*" by simp
  then show "t \<in> R" using s c by (induction rule: rtrancl_induct) auto
qed

lemma addclosure_closed_base:
  assumes "\<forall>p \<in> set base. \<forall>q. (p, q) \<in> eps nfa \<longrightarrow> q \<in> set base"
  shows "set (addclosure nfa state base) = set base \<union> (eps nfa)\<^sup>* `` {state}"
proof
  show "set (addclosure nfa state base) \<subseteq> set base \<union> (eps nfa)\<^sup>* `` {state}"
    by (rule addclosure_reach(1))
next
  let ?R = "set (addclosure nfa state base)"
  have g: "set base \<subseteq> ?R" by (rule addclosure_grows(1))
  have "\<forall>p \<in> ?R. \<forall>q. (p, q) \<in> eps nfa \<longrightarrow> q \<in> ?R"
    using addclosure_new_closed(1) [of nfa state base] assms g by blast
  then have "(eps nfa)\<^sup>* `` {state} \<subseteq> ?R"
    by (rule closed_contains_reach) (rule addclosure_self)
  with g show "set base \<union> (eps nfa)\<^sup>* `` {state} \<subseteq> ?R" by simp
qed

lemma closure_reach: "set (closure nfa state) = (eps nfa)\<^sup>* `` {state}"
  using addclosure_closed_base [of "[]" nfa state] by (simp add: closure_def)

lemma reach_closed: "\<forall>p \<in> r\<^sup>* `` X. \<forall>q. (p, q) \<in> r \<longrightarrow> q \<in> r\<^sup>* `` X"
  by (auto intro: rtrancl_into_rtrancl)

lemma move_arc_inv:
  assumes inv: "moves_inv nfa A ms"
  shows "moves_inv nfa (insert a A) (move_arc nfa a ms)"
proof (cases a)
  case (Pair label nxt)
  show ?thesis
  proof (cases label)
    case None
    have "\<And>l. {q. (Some l, q) \<in> insert a A} = {q. (Some l, q) \<in> A}"
      using Pair None by auto
    moreover have "\<And>l. (\<forall>q. (Some l, q) \<notin> insert a A) = (\<forall>q. (Some l, q) \<notin> A)"
      using Pair None by auto
    moreover have "move_arc nfa a ms = ms" using Pair None by (simp add: move_arc_def)
    ultimately show ?thesis using inv by (simp add: moves_inv_def)
  next
    case (Some l)
    define base where "base = (case map_of ms l of None \<Rightarrow> [] | Some b \<Rightarrow> b)"
    let ?X = "(eps nfa)\<^sup>* `` {q. (Some l, q) \<in> A}"
    have sb: "set base = ?X"
    proof (cases "map_of ms l")
      case None
      with inv have "{q. (Some l, q) \<in> A} = {}" by (auto simp: moves_inv_def)
      with None show ?thesis by (simp add: base_def)
    next
      case (Some b)
      with inv show ?thesis by (simp add: base_def moves_inv_def)
    qed
    have "\<forall>p \<in> set base. \<forall>q. (p, q) \<in> eps nfa \<longrightarrow> q \<in> set base"
      unfolding sb by (rule reach_closed)
    then have sv: "set (addclosure nfa nxt base) = ?X \<union> (eps nfa)\<^sup>* `` {nxt}"
      using addclosure_closed_base [of base nfa nxt] sb by simp
    have "{q. (Some l, q) \<in> insert a A} = insert nxt {q. (Some l, q) \<in> A}"
      using Pair Some by auto
    then have sv': "set (addclosure nfa nxt base) = (eps nfa)\<^sup>* `` {q. (Some l, q) \<in> insert a A}"
      using sv by auto
    have e: "move_arc nfa a ms = AList.update l (addclosure nfa nxt base) ms"
      using Pair Some by (simp add: move_arc_def base_def)
    have oth: "\<And>l'. l' \<noteq> l \<Longrightarrow> {q. (Some l', q) \<in> insert a A} = {q. (Some l', q) \<in> A}"
      using Pair Some by auto
    have oth2: "\<And>l'. l' \<noteq> l \<Longrightarrow> (\<forall>q. (Some l', q) \<notin> insert a A) = (\<forall>q. (Some l', q) \<notin> A)"
      using Pair Some by auto
    have here: "\<not> (\<forall>q. (Some l, q) \<notin> insert a A)" using Pair Some by auto
    show ?thesis unfolding e moves_inv_def
    proof (intro conjI allI impI)
      show "distinct (map fst (AList.update l (addclosure nfa nxt base) ms))"
        using inv by (simp add: moves_inv_def distinct_update)
    next
      fix l'
      show "(map_of (AList.update l (addclosure nfa nxt base) ms) l' = None) =
          (\<forall>q. (Some l', q) \<notin> insert a A)"
      proof (cases "l' = l")
        case True
        with here show ?thesis by (simp add: update_conv')
      next
        case False
        with oth2 [OF False] inv show ?thesis by (simp add: update_conv' moves_inv_def)
      qed
    next
      fix l' m assume m: "map_of (AList.update l (addclosure nfa nxt base) ms) l' = Some m"
      show "set m = (eps nfa)\<^sup>* `` {q. (Some l', q) \<in> insert a A}"
      proof (cases "l' = l")
        case True
        with m have "m = addclosure nfa nxt base" by (simp add: update_conv')
        with sv' True show ?thesis by simp
      next
        case False
        with m have "map_of ms l' = Some m" by (simp add: update_conv')
        with inv oth [OF False] show ?thesis by (simp add: moves_inv_def)
      qed
    qed
  qed
qed

lemma fold_move_arc_inv:
  "moves_inv nfa A ms \<Longrightarrow> moves_inv nfa (A \<union> set as) (fold (move_arc nfa) as ms)"
proof (induction as arbitrary: A ms)
  case Nil
  then show ?case by simp
next
  case (Cons a as)
  have "moves_inv nfa (insert a A \<union> set as) (fold (move_arc nfa) as (move_arc nfa a ms))"
    by (rule Cons.IH) (rule move_arc_inv [OF Cons.prems])
  then show ?case by simp
qed

lemma fold_members_inv:
  "moves_inv nfa A ms \<Longrightarrow>
   moves_inv nfa (A \<union> (\<Union>p \<in> set ps. set (nfa_arcs nfa p)))
     (fold (\<lambda>nfastate. fold (move_arc nfa) (nfa_arcs nfa nfastate)) ps ms)"
proof (induction ps arbitrary: A ms)
  case Nil
  then show ?case by simp
next
  case (Cons p ps)
  have "moves_inv nfa ((A \<union> set (nfa_arcs nfa p)) \<union> (\<Union>p \<in> set ps. set (nfa_arcs nfa p)))
     (fold (\<lambda>nfastate. fold (move_arc nfa) (nfa_arcs nfa nfastate)) ps
        (fold (move_arc nfa) (nfa_arcs nfa p) ms))"
    by (rule Cons.IH) (rule fold_move_arc_inv [OF Cons.prems])
  then show ?case by (simp add: Un_assoc)
qed

lemma state_moves_inv:
  "moves_inv nfa (\<Union>p \<in> set members. set (nfa_arcs nfa p)) (state_moves nfa members)"
proof -
  have "moves_inv nfa {} []" by (simp add: moves_inv_def)
  from fold_members_inv [OF this, of members] show ?thesis by (simp add: state_moves_def)
qed

lemma state_moves_set:
  assumes "map_of (state_moves nfa members) l = Some m"
  shows "set m = move_set nfa (set members) l"
proof -
  have "{q. (Some l, q) \<in> (\<Union>p \<in> set members. set (nfa_arcs nfa p))} =
      {q. \<exists>p \<in> set members. (Some l, q) \<in> set (nfa_arcs nfa p)}" by auto
  with state_moves_inv [of nfa members] assms show ?thesis
    by (simp add: moves_inv_def move_set_def)
qed

lemma state_moves_keys:
  "fst ` set (state_moves nfa members) =
     {l. \<exists>p \<in> set members. \<exists>q. (Some l, q) \<in> set (nfa_arcs nfa p)}"
proof -
  let ?ms = "state_moves nfa members"
  let ?A = "\<Union>p \<in> set members. set (nfa_arcs nfa p)"
  have n: "\<And>l. (map_of ?ms l = None) = (\<forall>q. (Some l, q) \<notin> ?A)"
    using state_moves_inv [of nfa members] unfolding moves_inv_def by blast
  show ?thesis
  proof (rule set_eqI)
    fix l
    have "(l \<in> fst ` set ?ms) = (map_of ?ms l \<noteq> None)" by (simp add: map_of_eq_None_iff)
    also have "\<dots> = (\<exists>q. (Some l, q) \<in> ?A)" unfolding n by simp
    also have "\<dots> = (\<exists>p \<in> set members. \<exists>q. (Some l, q) \<in> set (nfa_arcs nfa p))" by blast
    finally show "(l \<in> fst ` set ?ms) =
        (l \<in> {l. \<exists>p \<in> set members. \<exists>q. (Some l, q) \<in> set (nfa_arcs nfa p)})" by simp
  qed
qed

lemma sid_index_nth:
  assumes "map sid states = [0 ..< length states]" "st \<in> set states"
  shows "sid st < length states \<and> states ! sid st = st"
proof -
  from assms(2) obtain k where k: "k < length states" "st = states ! k"
    by (auto simp: in_set_conv_nth)
  then have "sid st = map sid states ! k" by simp
  also have "\<dots> = k" using assms(1) k by simp
  finally show ?thesis using k by simp
qed

lemma add_target_step_full:
  assumes inv: "dfas_inv nfa start finish states"
    and i: "i < length states"
    and l: "l \<notin> fst ` set (arcs (states ! i))"
    and m: "m \<noteq> []" "set m \<subseteq> nfa_targets nfa"
    and tl: "\<forall>k. i < k \<and> k < length states \<longrightarrow> arcs (states ! k) = []"
  shows "\<exists>states' t. add_target finish i (l, m) states = Inr states' \<and>
      dfas_inv nfa start finish states' \<and> length states \<le> length states' \<and>
      arcs (states' ! i) = arcs (states ! i) @ [(l, t)] \<and>
      (\<forall>k. i < k \<and> k < length states' \<longrightarrow> arcs (states' ! k) = []) \<and>
      (\<forall>k < length states. k \<noteq> i \<longrightarrow> states' ! k = states ! k) \<and>
      (\<forall>k < length states. nfaset (states' ! k) = nfaset (states ! k)) \<and>
      t < length states' \<and> set (nfaset (states' ! t)) = set m"
proof (cases "find (\<lambda>st. set (nfaset st) = set m) states")
  case (Some st)
  let ?r = "states[i := (states ! i)\<lparr>arcs := arcs (states ! i) @ [(l, sid st)]\<rparr>]"
  from find_nfaset_Some [OF Some] have st: "st \<in> set states" "set (nfaset st) = set m" by simp_all
  from inv have ms: "map sid states = [0 ..< length states]" by (simp add: dfas_inv_def)
  from sid_index_nth [OF ms st(1)] have t: "sid st < length states" "states ! sid st = st"
    by simp_all
  have e: "add_target finish i (l, m) states = Inr ?r"
    using Some l by (simp add: add_target_def add_arc_at_Inr)
  have "dfas_inv nfa start finish ?r" by (rule dfas_inv_add_arc [OF inv i l t(1)])
  moreover have "arcs (?r ! i) = arcs (states ! i) @ [(l, sid st)]" using i by simp
  moreover have "\<forall>k. i < k \<and> k < length ?r \<longrightarrow> arcs (?r ! k) = []" using tl by simp
  moreover have "\<forall>k < length states. k \<noteq> i \<longrightarrow> ?r ! k = states ! k" by simp
  moreover have nf: "\<forall>k < length states. nfaset (?r ! k) = nfaset (states ! k)"
    using i by (simp add: nth_list_update)
  moreover have "sid st < length ?r" using t(1) by simp
  moreover have "set (nfaset (?r ! sid st)) = set m" using nf t st(2) by simp
  ultimately show ?thesis using e by (intro exI [of _ ?r] exI [of _ "sid st"]) simp
next
  case None
  let ?n = "\<lparr>sid = length states, nfaset = m, isfinal = (finish \<in> set m), arcs = []\<rparr>"
  let ?s2 = "states @ [?n]"
  let ?r = "?s2[i := (?s2 ! i)\<lparr>arcs := arcs (?s2 ! i) @ [(l, length states)]\<rparr>]"
  have n: "\<forall>st \<in> set states. set (nfaset st) \<noteq> set m" using None by (auto simp: find_None_iff)
  have si: "?s2 ! i = states ! i" using i by (simp add: nth_append)
  have e: "add_target finish i (l, m) states = Inr ?r"
    using None l m(1) si by (simp add: add_target_def DFAState_init_def add_arc_at_Inr)
  have inv2: "dfas_inv nfa start finish ?s2" by (rule dfas_inv_append [OF inv n m])
  have "dfas_inv nfa start finish ?r"
    by (rule dfas_inv_add_arc [OF inv2]) (use i l si in auto)
  moreover have "arcs (?r ! i) = arcs (states ! i) @ [(l, length states)]" using i si by simp
  moreover have "\<forall>k. i < k \<and> k < length ?r \<longrightarrow> arcs (?r ! k) = []"
    using tl by (auto simp: nth_append)
  moreover have "\<forall>k < length states. k \<noteq> i \<longrightarrow> ?r ! k = states ! k"
    by (simp add: nth_append)
  moreover have "\<forall>k < length states. nfaset (?r ! k) = nfaset (states ! k)"
    using i by (simp add: nth_list_update nth_append)
  moreover have "length states < length ?r" by simp
  moreover have "set (nfaset (?r ! length states)) = set m" using i by simp
  ultimately show ?thesis using e by (intro exI [of _ ?r] exI [of _ "length states"]) simp
qed

lemma foldM_add_target_full:
  assumes "dfas_inv nfa start finish states" "i < length states"
    "distinct (map fst ms)" "\<forall>(l, m) \<in> set ms. m \<noteq> [] \<and> set m \<subseteq> nfa_targets nfa"
    "fst ` set (arcs (states ! i)) \<inter> fst ` set ms = {}"
    "\<forall>k. i < k \<and> k < length states \<longrightarrow> arcs (states ! k) = []"
  shows "\<exists>states' new. foldM (add_target finish i) ms states = Inr states' \<and>
      dfas_inv nfa start finish states' \<and> length states \<le> length states' \<and>
      (\<forall>k. i < k \<and> k < length states' \<longrightarrow> arcs (states' ! k) = []) \<and>
      arcs (states' ! i) = arcs (states ! i) @ new \<and> map fst new = map fst ms \<and>
      (\<forall>(l, t) \<in> set new. t < length states' \<and>
         (\<exists>m. (l, m) \<in> set ms \<and> set (nfaset (states' ! t)) = set m)) \<and>
      (\<forall>k < length states. k \<noteq> i \<longrightarrow> states' ! k = states ! k) \<and>
      (\<forall>k < length states. nfaset (states' ! k) = nfaset (states ! k))"
  using assms
proof (induction ms arbitrary: states)
  case Nil
  then show ?case by simp
next
  case (Cons a ms)
  obtain l m where a: "a = (l, m)" by (cases a)
  from Cons.prems a have l: "l \<notin> fst ` set (arcs (states ! i))" by auto
  from Cons.prems a have m: "m \<noteq> []" "set m \<subseteq> nfa_targets nfa" by auto
  from add_target_step_full [OF Cons.prems(1,2) l m Cons.prems(6)]
  obtain s1 t where s1: "add_target finish i (l, m) states = Inr s1"
    "dfas_inv nfa start finish s1" "length states \<le> length s1"
    "arcs (s1 ! i) = arcs (states ! i) @ [(l, t)]"
    "\<forall>k. i < k \<and> k < length s1 \<longrightarrow> arcs (s1 ! k) = []"
    "\<forall>k < length states. k \<noteq> i \<longrightarrow> s1 ! k = states ! k"
    "\<forall>k < length states. nfaset (s1 ! k) = nfaset (states ! k)"
    "t < length s1" "set (nfaset (s1 ! t)) = set m" by blast
  have i1: "i < length s1" using Cons.prems(2) s1(3) by simp
  have d: "distinct (map fst ms)" using Cons.prems(3) by simp
  have v: "\<forall>(l, m) \<in> set ms. m \<noteq> [] \<and> set m \<subseteq> nfa_targets nfa" using Cons.prems(4) by simp
  have k: "fst ` set (arcs (s1 ! i)) \<inter> fst ` set ms = {}"
    using Cons.prems(3,5) a s1(4) by auto
  from Cons.IH [OF s1(2) i1 d v k s1(5)]
  obtain s2 new where s2: "foldM (add_target finish i) ms s1 = Inr s2"
    "dfas_inv nfa start finish s2" "length s1 \<le> length s2"
    "\<forall>k. i < k \<and> k < length s2 \<longrightarrow> arcs (s2 ! k) = []"
    "arcs (s2 ! i) = arcs (s1 ! i) @ new" "map fst new = map fst ms"
    "\<forall>(l, t) \<in> set new. t < length s2 \<and> (\<exists>m. (l, m) \<in> set ms \<and> set (nfaset (s2 ! t)) = set m)"
    "\<forall>k < length s1. k \<noteq> i \<longrightarrow> s2 ! k = s1 ! k"
    "\<forall>k < length s1. nfaset (s2 ! k) = nfaset (s1 ! k)" by blast
  have f: "foldM (add_target finish i) (a # ms) states = Inr s2" using s1(1) s2(1) a by simp
  have t2: "t < length s2" using s1(8) s2(3) by simp
  have nt: "set (nfaset (s2 ! t)) = set m" using s2(9) s1(8,9) by simp
  have new: "\<forall>(l', t') \<in> set ((l, t) # new). t' < length s2 \<and>
      (\<exists>m'. (l', m') \<in> set (a # ms) \<and> set (nfaset (s2 ! t')) = set m')"
    using t2 nt a s2(7) by fastforce
  have oth: "\<forall>k < length states. k \<noteq> i \<longrightarrow> s2 ! k = states ! k"
    using s1(3,6) s2(8) by auto
  have nfs: "\<forall>k < length states. nfaset (s2 ! k) = nfaset (states ! k)"
    using s1(3,7) s2(9) by auto
  have ar: "arcs (s2 ! i) = arcs (states ! i) @ ((l, t) # new)" using s1(4) s2(5) by simp
  have mf: "map fst ((l, t) # new) = map fst (a # ms)" using a s2(6) by simp
  have len: "length states \<le> length s2" using s1(3) s2(3) by simp
  show ?case
    using f s2(2) len s2(4) ar mf new oth nfs
    by (intro exI [of _ s2] exI [of _ "(l, t) # new"] conjI) assumption+
qed

lemma make_dfas_state_full:
  assumes inv: "dfas_inv nfa start finish states" and i: "i < length states"
    and tl: "\<forall>k. i \<le> k \<and> k < length states \<longrightarrow> arcs (states ! k) = []"
    and dn: "\<forall>k < i. arcs_done nfa states k"
  shows "\<exists>states'. make_dfas_state nfa finish i states = Inr states' \<and>
      dfas_inv nfa start finish states' \<and> length states \<le> length states' \<and>
      (\<forall>k. Suc i \<le> k \<and> k < length states' \<longrightarrow> arcs (states' ! k) = []) \<and>
      (\<forall>k < Suc i. arcs_done nfa states' k)"
proof -
  let ?ms = "state_moves nfa (nfaset (states ! i))"
  have ok: "moves_ok nfa ?ms" by (rule state_moves_ok)
  have e: "arcs (states ! i) = []" using tl i by simp
  have "\<exists>states' new. foldM (add_target finish i) ?ms states = Inr states' \<and>
      dfas_inv nfa start finish states' \<and> length states \<le> length states' \<and>
      (\<forall>k. i < k \<and> k < length states' \<longrightarrow> arcs (states' ! k) = []) \<and>
      arcs (states' ! i) = arcs (states ! i) @ new \<and> map fst new = map fst ?ms \<and>
      (\<forall>(l, t) \<in> set new. t < length states' \<and>
         (\<exists>m. (l, m) \<in> set ?ms \<and> set (nfaset (states' ! t)) = set m)) \<and>
      (\<forall>k < length states. k \<noteq> i \<longrightarrow> states' ! k = states ! k) \<and>
      (\<forall>k < length states. nfaset (states' ! k) = nfaset (states ! k))"
    by (rule foldM_add_target_full [OF inv i]) (use ok e tl in \<open>auto simp: moves_ok_def\<close>)
  then obtain s' new where s': "foldM (add_target finish i) ?ms states = Inr s'"
    "dfas_inv nfa start finish s'" "length states \<le> length s'"
    "\<forall>k. i < k \<and> k < length s' \<longrightarrow> arcs (s' ! k) = []"
    "arcs (s' ! i) = arcs (states ! i) @ new" "map fst new = map fst ?ms"
    "\<forall>(l, t) \<in> set new. t < length s' \<and> (\<exists>m. (l, m) \<in> set ?ms \<and> set (nfaset (s' ! t)) = set m)"
    "\<forall>k < length states. k \<noteq> i \<longrightarrow> s' ! k = states ! k"
    "\<forall>k < length states. nfaset (s' ! k) = nfaset (states ! k)" by blast
  have dk: "distinct (map fst ?ms)" using ok by (simp add: moves_ok_def)
  have ni: "nfaset (s' ! i) = nfaset (states ! i)" using s'(9) i by simp
  have di: "arcs_done nfa s' i"
    unfolding arcs_done_def ni
    using s'(5,6,7) e dk by (auto dest!: map_of_is_SomeI [OF dk])
  have "\<forall>k < Suc i. arcs_done nfa s' k"
  proof (intro allI impI)
    fix k assume k: "k < Suc i"
    show "arcs_done nfa s' k"
    proof (cases "k = i")
      case True
      with di show ?thesis by simp
    next
      case False
      with k have ki: "k < i" by simp
      then have kl: "k < length states" using i by simp
      have same: "s' ! k = states ! k" using s'(8) kl False by simp
      from dn ki have d: "arcs_done nfa states k" by simp
      show ?thesis
        unfolding arcs_done_def same
      proof (intro conjI ballI)
        show "map fst (arcs (states ! k)) = map fst (state_moves nfa (nfaset (states ! k)))"
          using d by (simp add: arcs_done_def)
      next
        fix x assume x: "x \<in> set (arcs (states ! k))"
        obtain l t where lt: "x = (l, t)" by (cases x)
        from d x lt obtain m where t: "t < length states"
          "map_of (state_moves nfa (nfaset (states ! k))) l = Some m"
          "set (nfaset (states ! t)) = set m"
          by (auto simp: arcs_done_def)
        have "nfaset (s' ! t) = nfaset (states ! t)" using s'(9) t(1) by simp
        with t s'(3) lt
        show "case x of (l, t) \<Rightarrow> t < length s' \<and>
            (\<exists>m. map_of (state_moves nfa (nfaset (states ! k))) l = Some m \<and>
               set (nfaset (s' ! t)) = set m)" by auto
      qed
    qed
  qed
  then show ?thesis using s'(1,2,3,4) by (auto simp: make_dfas_state_def Suc_le_eq)
qed

lemma make_dfas_full:
  "\<exists>states. make_dfas nfa start finish = Some (Inr states) \<and>
     dfas_inv nfa start finish states \<and> (\<forall>k < length states. arcs_done nfa states k)"
proof -
  let ?s0 = "\<lparr>sid = 0, nfaset = closure nfa start,
      isfinal = (finish \<in> set (closure nfa start)), arcs = []\<rparr>"
  let ?init = "Inr ([?s0], 0) :: error + DFAState list \<times> nat"
  let ?I = "\<lambda>s. make_dfas_inv nfa start finish s \<and>
      (case s of Inl e \<Rightarrow> False | Inr (states, i) \<Rightarrow> \<forall>k < i. arcs_done nfa states k)"
  have i0: "DFAState_init 0 (closure nfa start) finish = Inr ?s0"
    using addclosure_nonempty [of nfa start "[]"] by (simp add: DFAState_init_def closure_def)
  have p0: "make_dfas_inv nfa start finish ?init"
    using dfas_inv_init [of nfa start finish] by (simp add: make_dfas_inv_def)
  then have q0: "?I ?init" by simp
  have "\<exists>t. while_option make_dfas_cond (make_dfas_body nfa finish) ?init = Some t"
    by (rule measure_while_option_Some [where P = "make_dfas_inv nfa start finish"
          and f = "\<lambda>s. case s of Inl e \<Rightarrow> 0
            | Inr (states, i) \<Rightarrow> 2 ^ card (insert start (nfa_targets nfa)) - i"])
      (use make_dfas_body_inv p0 in blast)+
  then obtain t where t: "while_option make_dfas_cond (make_dfas_body nfa finish) ?init = Some t" ..
  have step: "\<And>s. ?I s \<Longrightarrow> make_dfas_cond s \<Longrightarrow> ?I (make_dfas_body nfa finish s)"
  proof -
    fix s assume I: "?I s" and b: "make_dfas_cond s"
    then obtain states i where s: "s = Inr (states, i)"
      by (cases s) (auto simp: make_dfas_inv_def)
    from I s have inv: "dfas_inv nfa start finish states"
      and tl: "\<forall>k. i \<le> k \<and> k < length states \<longrightarrow> arcs (states ! k) = []"
      and dn: "\<forall>k < i. arcs_done nfa states k"
      by (auto simp: make_dfas_inv_def)
    from b s have i: "i < length states" by (simp add: make_dfas_cond_def)
    from make_dfas_state_full [OF inv i tl dn]
    obtain s' where s': "make_dfas_state nfa finish i states = Inr s'"
      "dfas_inv nfa start finish s'" "length states \<le> length s'"
      "\<forall>k. Suc i \<le> k \<and> k < length s' \<longrightarrow> arcs (s' ! k) = []"
      "\<forall>k < Suc i. arcs_done nfa s' k" by blast
    have e: "make_dfas_body nfa finish s = Inr (s', Suc i)"
      using s s' by (simp add: make_dfas_body_def)
    show "?I (make_dfas_body nfa finish s)"
      unfolding e using s' i by (simp add: make_dfas_inv_def)
  qed
  have pt: "?I t" by (rule while_option_rule [where P = ?I, OF step t q0])
  then obtain states i where ti: "t = Inr (states, i)"
    by (cases t) (auto simp: make_dfas_inv_def)
  have "\<not> make_dfas_cond t" by (rule while_option_stop [OF t])
  with ti have ge: "length states \<le> i" by (simp add: make_dfas_cond_def)
  have "make_dfas nfa start finish = Some (Inr states)"
    using i0 t ti by (simp add: make_dfas_def)
  moreover have "dfas_inv nfa start finish states" using pt ti by (simp add: make_dfas_inv_def)
  moreover have "\<forall>k < length states. arcs_done nfa states k" using pt ti ge by auto
  ultimately show ?thesis by blast
qed

lemma arcs_done_moves:
  assumes inv: "dfas_inv nfa start finish states" and k: "k < length states"
    and d: "arcs_done nfa states k"
  shows "isfinal (states ! k) = (finish \<in> set (nfaset (states ! k))) \<and>
     distinct (map fst (arcs (states ! k))) \<and>
     fst ` set (arcs (states ! k)) =
       {l. \<exists>p \<in> set (nfaset (states ! k)). \<exists>q. (Some l, q) \<in> set (nfa_arcs nfa p)} \<and>
     (\<forall>(l, t) \<in> set (arcs (states ! k)). t < length states \<and> sid (states ! t) = t \<and>
        set (nfaset (states ! t)) = move_set nfa (set (nfaset (states ! k))) l)"
proof (intro conjI ballI)
  have sk: "states ! k \<in> set states" using k by simp
  with inv show "isfinal (states ! k) = (finish \<in> set (nfaset (states ! k)))"
    and "distinct (map fst (arcs (states ! k)))" by (auto simp: dfas_inv_def)
  have "set (map fst (arcs (states ! k))) = set (map fst (state_moves nfa (nfaset (states ! k))))"
    using d by (simp add: arcs_done_def)
  then show "fst ` set (arcs (states ! k)) =
       {l. \<exists>p \<in> set (nfaset (states ! k)). \<exists>q. (Some l, q) \<in> set (nfa_arcs nfa p)}"
    using state_moves_keys [of nfa "nfaset (states ! k)"] by simp
next
  fix x assume x: "x \<in> set (arcs (states ! k))"
  obtain l t where lt: "x = (l, t)" by (cases x)
  from d x lt obtain m where t: "t < length states"
    "map_of (state_moves nfa (nfaset (states ! k))) l = Some m"
    "set (nfaset (states ! t)) = set m"
    by (auto simp: arcs_done_def)
  from inv have "map sid states = [0 ..< length states]" by (simp add: dfas_inv_def)
  then have "map sid states ! t = t" using t(1) by simp
  then have st: "sid (states ! t) = t" using t(1) by simp
  from state_moves_set [OF t(2)] t(1,3) st lt
  show "case x of (l, t) \<Rightarrow> t < length states \<and> sid (states ! t) = t \<and>
        set (nfaset (states ! t)) = move_set nfa (set (nfaset (states ! k))) l" by simp
qed

text \<open>
  Claim C4. \<^verbatim>\<open>_make_dfas\<close> returns, without an error, a non-empty list whose first
  state is the epsilon closure of the NFA start state (the states reachable from it by
  epsilon arcs) and in which no two states have set-equal \<open>nfaset\<close>s. For every state of
  the list, the labels of its arcs are exactly the labels of the non-epsilon arcs that
  leave its NFA states, each once, and the arc on a label leads to the state of the list
  whose \<open>nfaset\<close> is the epsilon-closed set of the NFA states reached on that label.
  Each candidate target set is looked up among the states built so far: when one has a
  set-equal \<open>nfaset\<close>, the list keeps its states and the new arc leads to that state;
  otherwise one state with the candidate set is appended and the arc leads to it.
\<close>

theorem make_dfas_subset_construction:
  "(\<exists>states. make_dfas nfa start finish = Some (Inr states) \<and> states \<noteq> [] \<and>
      nfaset (states ! 0) = closure nfa start \<and>
      set (closure nfa start) = (eps nfa)\<^sup>* `` {start} \<and>
      (\<forall>a b. a < b \<and> b < length states \<longrightarrow>
         set (nfaset (states ! a)) \<noteq> set (nfaset (states ! b))) \<and>
      (\<forall>k < length states.
         isfinal (states ! k) = (finish \<in> set (nfaset (states ! k))) \<and>
         distinct (map fst (arcs (states ! k))) \<and>
         fst ` set (arcs (states ! k)) =
           {l. \<exists>p \<in> set (nfaset (states ! k)). \<exists>q. (Some l, q) \<in> set (nfa_arcs nfa p)} \<and>
         (\<forall>(l, t) \<in> set (arcs (states ! k)). t < length states \<and> sid (states ! t) = t \<and>
            set (nfaset (states ! t)) = move_set nfa (set (nfaset (states ! k))) l))) \<and>
   (\<forall>i label members states0 states'.
      i < length states0 \<and> add_target finish i (label, members) states0 = Inr states' \<longrightarrow>
      (\<exists>st \<in> set states0. set (nfaset st) = set members \<and>
          map nfaset states' = map nfaset states0 \<and>
          arcs (states' ! i) = arcs (states0 ! i) @ [(label, sid st)]) \<or>
      ((\<forall>st \<in> set states0. set (nfaset st) \<noteq> set members) \<and>
          map nfaset states' = map nfaset states0 @ [members] \<and>
          arcs (states' ! i) = arcs (states0 ! i) @ [(label, sid (last states'))]))"
proof (intro conjI allI impI)
  from make_dfas_full [of nfa start finish] obtain states where
    s: "make_dfas nfa start finish = Some (Inr states)" "dfas_inv nfa start finish states"
    "\<forall>k < length states. arcs_done nfa states k"
    by blast
  from s(2) have d: "distinct (map (\<lambda>s. set (nfaset s)) states)" by (simp add: dfas_inv_def)
  have p: "\<forall>a b. a < b \<and> b < length states \<longrightarrow>
      set (nfaset (states ! a)) \<noteq> set (nfaset (states ! b))"
  proof (intro allI impI)
    fix a b assume ab: "a < b \<and> b < length states"
    then have "map (\<lambda>s. set (nfaset s)) states ! a \<noteq> map (\<lambda>s. set (nfaset s)) states ! b"
      using d by (auto simp: distinct_conv_nth simp del: nth_map)
    with ab show "set (nfaset (states ! a)) \<noteq> set (nfaset (states ! b))" by simp
  qed
  have q: "\<forall>k < length states.
         isfinal (states ! k) = (finish \<in> set (nfaset (states ! k))) \<and>
         distinct (map fst (arcs (states ! k))) \<and>
         fst ` set (arcs (states ! k)) =
           {l. \<exists>p \<in> set (nfaset (states ! k)). \<exists>q. (Some l, q) \<in> set (nfa_arcs nfa p)} \<and>
         (\<forall>(l, t) \<in> set (arcs (states ! k)). t < length states \<and> sid (states ! t) = t \<and>
            set (nfaset (states ! t)) = move_set nfa (set (nfaset (states ! k))) l)"
    using arcs_done_moves [OF s(2)] s(3) by blast
  from s(2) have ne: "states \<noteq> []" and c: "nfaset (states ! 0) = closure nfa start"
    by (simp_all add: dfas_inv_def)
  show "\<exists>states. make_dfas nfa start finish = Some (Inr states) \<and> states \<noteq> [] \<and>
      nfaset (states ! 0) = closure nfa start \<and>
      set (closure nfa start) = (eps nfa)\<^sup>* `` {start} \<and>
      (\<forall>a b. a < b \<and> b < length states \<longrightarrow>
         set (nfaset (states ! a)) \<noteq> set (nfaset (states ! b))) \<and>
      (\<forall>k < length states.
         isfinal (states ! k) = (finish \<in> set (nfaset (states ! k))) \<and>
         distinct (map fst (arcs (states ! k))) \<and>
         fst ` set (arcs (states ! k)) =
           {l. \<exists>p \<in> set (nfaset (states ! k)). \<exists>q. (Some l, q) \<in> set (nfa_arcs nfa p)} \<and>
         (\<forall>(l, t) \<in> set (arcs (states ! k)). t < length states \<and> sid (states ! t) = t \<and>
            set (nfaset (states ! t)) = move_set nfa (set (nfaset (states ! k))) l))"
    using s(1) ne c closure_reach [of nfa start] p q
    by (intro exI [of _ states] conjI) assumption+
next
  fix i label members states0 states'
  assume "i < length states0 \<and> add_target finish i (label, members) states0 = Inr states'"
  then show "(\<exists>st \<in> set states0. set (nfaset st) = set members \<and>
          map nfaset states' = map nfaset states0 \<and>
          arcs (states' ! i) = arcs (states0 ! i) @ [(label, sid st)]) \<or>
      ((\<forall>st \<in> set states0. set (nfaset st) \<noteq> set members) \<and>
          map nfaset states' = map nfaset states0 @ [members] \<and>
          arcs (states' ! i) = arcs (states0 ! i) @ [(label, sid (last states'))])"
    using add_target_result by blast
qed

lemma merge_before_step:
  "add_target 7 2 (squote ''c'', [7]) merge_before = Inr merge_example"
  by code_simp

theorem make_dfas_subset_construction_witness:
  "make_dfas merge_nfa 2 7 = Some (Inr merge_example) \<and>
   set (nfaset (merge_example ! 0)) = (eps merge_nfa)\<^sup>* `` {2} \<and>
   set (nfaset (merge_example ! 1)) \<noteq> set (nfaset (merge_example ! 2)) \<and>
   (squote ''c'', 3) \<in> set (arcs (merge_example ! 1)) \<and>
   set (nfaset (merge_example ! 3)) =
     move_set merge_nfa (set (nfaset (merge_example ! 1))) (squote ''c'') \<and>
   (squote ''c'', 3) \<in> set (arcs (merge_example ! 2)) \<and>
   set (nfaset (merge_example ! 3)) =
     move_set merge_nfa (set (nfaset (merge_example ! 2))) (squote ''c'') \<and>
   fst ` set (arcs (merge_example ! 0)) =
     {l. \<exists>p \<in> set (nfaset (merge_example ! 0)). \<exists>q. (Some l, q) \<in> set (nfa_arcs merge_nfa p)} \<and>
   2 < length merge_before \<and>
   add_target 7 2 (squote ''c'', [7]) merge_before = Inr merge_example \<and>
   map nfaset merge_example = map nfaset merge_before"
proof -
  note t = make_dfas_subset_construction [of merge_nfa 2 7]
  from t [THEN conjunct1] obtain states where
    big: "make_dfas merge_nfa 2 7 = Some (Inr states) \<and> states \<noteq> [] \<and>
      nfaset (states ! 0) = closure merge_nfa 2 \<and>
      set (closure merge_nfa 2) = (eps merge_nfa)\<^sup>* `` {2} \<and>
      (\<forall>a b. a < b \<and> b < length states \<longrightarrow>
         set (nfaset (states ! a)) \<noteq> set (nfaset (states ! b))) \<and>
      (\<forall>k < length states.
         isfinal (states ! k) = (7 \<in> set (nfaset (states ! k))) \<and>
         distinct (map fst (arcs (states ! k))) \<and>
         fst ` set (arcs (states ! k)) =
           {l. \<exists>p \<in> set (nfaset (states ! k)). \<exists>q. (Some l, q) \<in> set (nfa_arcs merge_nfa p)} \<and>
         (\<forall>(l, t) \<in> set (arcs (states ! k)). t < length states \<and> sid (states ! t) = t \<and>
            set (nfaset (states ! t)) = move_set merge_nfa (set (nfaset (states ! k))) l))"
    by (rule exE)
  have e: "states = merge_example"
    using big [THEN conjunct1] merge_nfa_dfas by simp
  note b = big [THEN conjunct2, THEN conjunct2]
  have c1: "nfaset (merge_example ! 0) = closure merge_nfa 2"
    using b [THEN conjunct1] unfolding e .
  have c2: "set (closure merge_nfa 2) = (eps merge_nfa)\<^sup>* `` {2}"
    by (rule b [THEN conjunct2, THEN conjunct1])
  have d: "1 < (2::nat) \<and> 2 < length merge_example \<longrightarrow>
      set (nfaset (merge_example ! 1)) \<noteq> set (nfaset (merge_example ! 2))"
    using b [THEN conjunct2, THEN conjunct2, THEN conjunct1, THEN spec, THEN spec, of 1 2]
    unfolding e .
  note q = b [THEN conjunct2, THEN conjunct2, THEN conjunct2, unfolded e]
  have len: "length merge_example = 4" by (simp add: merge_example_def)
  have a1: "(squote ''c'', 3) \<in> set (arcs (merge_example ! 1))" by (simp add: merge_example_def)
  have a2: "(squote ''c'', 3) \<in> set (arcs (merge_example ! 2))" by (simp add: merge_example_def)
  have r0: "set (nfaset (merge_example ! 0)) = (eps merge_nfa)\<^sup>* `` {2}"
    unfolding c1 by (rule c2)
  have r1: "set (nfaset (merge_example ! 1)) \<noteq> set (nfaset (merge_example ! 2))"
    using d len by simp
  have l1: "1 < length merge_example" "2 < length merge_example" "0 < length merge_example"
    unfolding len by simp_all
  note q1 = q [THEN spec, THEN mp, OF l1(1), THEN conjunct2, THEN conjunct2, THEN conjunct2,
      THEN bspec, OF a1]
  note q2 = q [THEN spec, THEN mp, OF l1(2), THEN conjunct2, THEN conjunct2, THEN conjunct2,
      THEN bspec, OF a2]
  have r2: "set (nfaset (merge_example ! 3)) =
     move_set merge_nfa (set (nfaset (merge_example ! 1))) (squote ''c'')"
    using q1 by (simp only: prod.case)
  have r3: "set (nfaset (merge_example ! 3)) =
     move_set merge_nfa (set (nfaset (merge_example ! 2))) (squote ''c'')"
    using q2 by (simp only: prod.case)
  have r4: "fst ` set (arcs (merge_example ! 0)) =
     {l. \<exists>p \<in> set (nfaset (merge_example ! 0)). \<exists>q. (Some l, q) \<in> set (nfa_arcs merge_nfa p)}"
    by (rule q [THEN spec, THEN mp, OF l1(3), THEN conjunct2, THEN conjunct2, THEN conjunct1])
  have lb: "2 < length merge_before" by (simp add: merge_before_def)
  note u = t [THEN conjunct2, THEN spec, THEN spec, THEN spec, THEN spec, THEN spec, THEN mp,
      OF conjI [OF lb merge_before_step]]
  have ll: "length (map nfaset merge_example) \<noteq> length (map nfaset merge_before @ [[7]])"
    by (simp add: merge_example_def merge_before_def)
  from u have r5: "map nfaset merge_example = map nfaset merge_before"
  proof (rule disjE)
    assume "\<exists>st \<in> set merge_before. set (nfaset st) = set [7] \<and>
          map nfaset merge_example = map nfaset merge_before \<and>
          arcs (merge_example ! 2) = arcs (merge_before ! 2) @ [(squote ''c'', sid st)]"
    then show ?thesis by (elim bexE conjE)
  next
    assume "(\<forall>st \<in> set merge_before. set (nfaset st) \<noteq> set [7]) \<and>
          map nfaset merge_example = map nfaset merge_before @ [[7]] \<and>
          arcs (merge_example ! 2) = arcs (merge_before ! 2) @ [(squote ''c'', sid (last merge_example))]"
    then have "map nfaset merge_example = map nfaset merge_before @ [[7]]" by (elim conjE)
    with ll show ?thesis by (simp only:)
  qed
  from merge_nfa_dfas r0 r1 a1 r2 a2 r3 r4 lb merge_before_step r5 show ?thesis
    by (intro conjI) assumption+
qed

lemma unify_at_head:
  assumes "i < j" "j < length d"
  shows "unify_at d i j \<noteq> [] \<and>
     unify_at d i j ! 0 = unifystate (d ! 0) (sid (d ! j)) (sid (d ! i))"
proof -
  let ?xs = "take j d @ drop (Suc j) d"
  have j: "0 < j" using assms by simp
  have len: "0 < length ?xs" using assms by auto
  have h: "?xs ! 0 = d ! 0" using assms j by (simp add: nth_append)
  have u: "unify_at d i j = map (\<lambda>state. unifystate state (sid (d ! j)) (sid (d ! i))) ?xs"
    by (simp add: unify_at_def Let_def)
  have "unify_at d i j ! 0 = unifystate (?xs ! 0) (sid (d ! j)) (sid (d ! i))"
    unfolding u using len by (rule nth_map)
  moreover have "unify_at d i j \<noteq> []" unfolding u using len by auto
  ultimately show ?thesis using h by simp
qed

lemma simplify_dfas_head:
  assumes res: "simplify_dfas dfas = Some r" and ne: "dfas \<noteq> []"
  shows "r \<noteq> [] \<and> sid (r ! 0) = sid (dfas ! 0) \<and> nfaset (r ! 0) = nfaset (dfas ! 0) \<and>
     isfinal (r ! 0) = isfinal (dfas ! 0)"
proof -
  let ?P = "\<lambda>d. d \<noteq> [] \<and> sid (d ! 0) = sid (dfas ! 0) \<and> nfaset (d ! 0) = nfaset (dfas ! 0) \<and>
     isfinal (d ! 0) = isfinal (dfas ! 0)"
  have "?P r \<and> (\<forall>k < length r. find_equal r k = None)"
  proof (rule simplify_dfas_rule [where P = ?P, OF res])
    show "?P dfas" using ne by simp
  next
    fix d i j assume "?P d" "i < j" "j < length d" "DFAState_eq (d ! i) (d ! j)"
    then show "?P (unify_at d i j)"
      using unify_at_head [of i j d] by (simp add: sid_unifystate nfaset_unifystate isfinal_unifystate)
  qed
  then show ?thesis by simp
qed

lemma unify_at_keeps_arcs:
  assumes ij: "i < j" "j < length d" and ds: "distinct (map sid d)" and i0: "0 < j"
    and k: "k < length (unify_at d i j)"
    and a: "(l, sid (d ! 0)) \<in> set (arcs ((take j d @ drop (Suc j) d) ! k))"
  shows "(l, sid (d ! 0)) \<in> set (arcs (unify_at d i j ! k))"
proof -
  have "0 < length (map sid d)" "j < length (map sid d)" "0 \<noteq> j" using ij i0 by auto
  with ds have "map sid d ! 0 \<noteq> map sid d ! j" by (simp add: nth_eq_iff_index_eq del: nth_map)
  moreover have "0 < length d" using ij by auto
  ultimately have ne: "sid (d ! 0) \<noteq> sid (d ! j)" using ij by simp
  have k': "k < length (take j d @ drop (Suc j) d)" using k by (simp add: unify_at_def Let_def)
  have "unify_at d i j ! k = unifystate ((take j d @ drop (Suc j) d) ! k) (sid (d ! j)) (sid (d ! i))"
    using k' unfolding unify_at_def Let_def by (rule nth_map)
  then show ?thesis using a ne by (force simp: unifystate_def)
qed

text \<open>
  Claim C9. Index \<open>0\<close> holds the rule's start state as \<^verbatim>\<open>_make_dfas\<close> returns the
  list (the closure of the NFA start state, final iff the finish state is in it) and after
  \<^verbatim>\<open>_simplify_dfas\<close> (the same object). A merge deletes the state at an index
  \<open>j \<ge> i + 1 \<ge> 1\<close>, so the state at index \<open>0\<close> stays, and an arc that leads to it
  still leads to it after the merge.
\<close>

theorem start_state_stays_first:
  "(\<exists>states r. make_dfas nfa start finish = Some (Inr states) \<and> simplify_dfas states = Some r \<and>
      states \<noteq> [] \<and> nfaset (states ! 0) = closure nfa start \<and>
      isfinal (states ! 0) = (finish \<in> set (closure nfa start)) \<and>
      r \<noteq> [] \<and> sid (r ! 0) = sid (states ! 0) \<and> nfaset (r ! 0) = closure nfa start \<and>
      isfinal (r ! 0) = isfinal (states ! 0)) \<and>
   (\<forall>d i j. find_equal d i = Some j \<longrightarrow>
      1 \<le> i + 1 \<and> i + 1 \<le> j \<and> j < length d \<and> unify_at d i j \<noteq> [] \<and>
      sid (unify_at d i j ! 0) = sid (d ! 0) \<and> nfaset (unify_at d i j ! 0) = nfaset (d ! 0) \<and>
      isfinal (unify_at d i j ! 0) = isfinal (d ! 0)) \<and>
   (\<forall>d i j k l. find_equal d i = Some j \<and> distinct (map sid d) \<and>
      k < length (unify_at d i j) \<and>
      (l, sid (d ! 0)) \<in> set (arcs ((take j d @ drop (Suc j) d) ! k)) \<longrightarrow>
      (l, sid (d ! 0)) \<in> set (arcs (unify_at d i j ! k)))"
proof (intro conjI allI impI)
  from make_dfas_total [of nfa start finish] obtain states where
    s: "make_dfas nfa start finish = Some (Inr states)" "dfas_inv nfa start finish states"
    by blast
  from simplify_dfas_total [of states] obtain r where r: "simplify_dfas states = Some r" ..
  from s(2) have ne: "states \<noteq> []" and c: "nfaset (states ! 0) = closure nfa start"
    by (simp_all add: dfas_inv_def)
  from s(2) ne have f: "isfinal (states ! 0) = (finish \<in> set (nfaset (states ! 0)))"
    by (simp add: dfas_inv_def)
  from simplify_dfas_head [OF r ne] s(1) r ne c f
  show "\<exists>states r. make_dfas nfa start finish = Some (Inr states) \<and> simplify_dfas states = Some r \<and>
      states \<noteq> [] \<and> nfaset (states ! 0) = closure nfa start \<and>
      isfinal (states ! 0) = (finish \<in> set (closure nfa start)) \<and>
      r \<noteq> [] \<and> sid (r ! 0) = sid (states ! 0) \<and> nfaset (r ! 0) = closure nfa start \<and>
      isfinal (r ! 0) = isfinal (states ! 0)"
    by auto
next
  fix d :: "DFAState list" and i j
  assume f: "find_equal d i = Some j"
  from find_equal_SomeD [OF f] have ij: "i < j" "j < length d" by simp_all
  show "1 \<le> i + 1" by simp
  show "i + 1 \<le> j" using ij by simp
  show "j < length d" using ij by simp
  from unify_at_head [OF ij] show "unify_at d i j \<noteq> []" by simp
  from unify_at_head [OF ij] show "sid (unify_at d i j ! 0) = sid (d ! 0)"
    by (simp add: sid_unifystate)
  from unify_at_head [OF ij] show "nfaset (unify_at d i j ! 0) = nfaset (d ! 0)"
    by (simp add: nfaset_unifystate)
  from unify_at_head [OF ij] show "isfinal (unify_at d i j ! 0) = isfinal (d ! 0)"
    by (simp add: isfinal_unifystate)
next
  fix d :: "DFAState list" and i j k l
  assume a: "find_equal d i = Some j \<and> distinct (map sid d) \<and>
      k < length (unify_at d i j) \<and>
      (l, sid (d ! 0)) \<in> set (arcs ((take j d @ drop (Suc j) d) ! k))"
  then have ij: "i < j" "j < length d" using find_equal_SomeD [of d i j] by simp_all
  then have "0 < j" by simp
  from unify_at_keeps_arcs [OF ij _ this] a
  show "(l, sid (d ! 0)) \<in> set (arcs (unify_at d i j ! k))" by blast
qed

lemma loop_example_find: "find_equal loop_example 0 = Some 1"
  by code_simp

lemma merge_example_simplified_again: "simplify_dfas merge_example = Some merge_example_result"
  by code_simp

theorem start_state_stays_first_witness:
  "make_dfas merge_nfa 2 7 = Some (Inr merge_example) \<and>
   simplify_dfas merge_example = Some merge_example_result \<and>
   nfaset (merge_example_result ! 0) = closure merge_nfa 2 \<and>
   find_equal loop_example 0 = Some 1 \<and> distinct (map sid loop_example) \<and>
   sid (unify_at loop_example 0 1 ! 0) = sid (loop_example ! 0) \<and>
   (squote ''a'', 0) \<in> set (arcs (unify_at loop_example 0 1 ! 0))"
proof -
  note t = start_state_stays_first [of merge_nfa 2 7]
  from t [THEN conjunct1] merge_nfa_dfas merge_example_simplified_again
  have a: "nfaset (merge_example_result ! 0) = closure merge_nfa 2" by auto
  have d: "distinct (map sid loop_example)" by (simp add: loop_example_def)
  from t [THEN conjunct2, THEN conjunct1, rule_format, OF loop_example_find]
  have b: "sid (unify_at loop_example 0 1 ! 0) = sid (loop_example ! 0)" by simp
  have k: "0 < length (unify_at loop_example 0 1)" by (simp add: unify_at_def loop_example_def)
  have "sid (loop_example ! 0) = 0" by (simp add: loop_example_def)
  moreover have "(squote ''a'', 1) \<in> set (arcs ((take 1 loop_example @ drop (Suc 1) loop_example) ! 0))"
    by (simp add: loop_example_def)
  ultimately show ?thesis
    using a b d merge_nfa_dfas merge_example_simplified_again loop_example_find
    by (simp add: unify_at_def loop_example_def unifystate_def)
qed

subsection \<open>The table assembler\<close>

declare calcfirst.simps [simp del]

lemma foldM_invariant:
  assumes "foldM f xs s = Inr s'" and "P s"
    and "\<And>x s s'. x \<in> set xs \<Longrightarrow> P s \<Longrightarrow> f x s = Inr s' \<Longrightarrow> P s'"
  shows "P s'"
  using assms
proof (induction xs arbitrary: s)
  case Nil
  then show ?case by simp
next
  case (Cons x xs)
  from Cons.prems(1) obtain s1 where s1: "f x s = Inr s1" "foldM f xs s1 = Inr s'"
    by (auto split: sum.splits)
  have p1: "P s1" using Cons.prems(3) [of x s s1] Cons.prems(2) s1(1) by simp
  show ?case by (rule Cons.IH [OF s1(2) p1]) (use Cons.prems(3) in auto)
qed

lemma foldM_append:
  "foldM f (xs @ ys) s = (case foldM f xs s of Inl e \<Rightarrow> Inl e | Inr s' \<Rightarrow> foldM f ys s')"
  by (induction xs arbitrary: s) (auto split: sum.splits)

lemma AList_update_new: "k \<notin> fst ` set al \<Longrightarrow> AList.update k v al = al @ [(k, v)]"
  by (induction al) auto

lemma make_label_symbols:
  assumes "make_label env g l = Inr (g', i)"
  shows "symbol2number g' = symbol2number g \<and> number2symbol g' = number2symbol g"
  using assms unfolding make_label_def Let_def
  by (auto split: list.splits if_splits option.splits sum.splits)

lemma make_arc_symbols:
  "make_arc env dfa a (g, out) = Inr (g', out') \<Longrightarrow> symbols_of g' = symbols_of g"
  unfolding make_arc_def symbols_of_def
  by (auto split: prod.splits sum.splits dest: make_label_symbols)

lemma make_state_symbols:
  assumes "make_state env dfa st (g, out) = Inr (g', out')"
  shows "symbols_of g' = symbols_of g"
proof -
  from assms obtain g1 arcs1 where f: "foldM (make_arc env dfa) (arcs st) (g, []) = Inr (g1, arcs1)"
    and g': "g' = g1"
    unfolding make_state_def by (auto split: sum.splits if_splits)
  have "symbols_of (fst (g1, arcs1)) = symbols_of g"
    by (rule foldM_invariant [OF f, where P = "\<lambda>s. symbols_of (fst s) = symbols_of g"])
      (auto dest: make_arc_symbols)
  with g' show ?thesis by simp
qed

lemma make_first_label_symbols:
  "make_first_label env l (g, out) = Inr (g', out') \<Longrightarrow> symbols_of g' = symbols_of g"
  unfolding make_first_label_def symbols_of_def
  by (auto split: prod.splits sum.splits dest: make_label_symbols)

lemma make_first_symbols:
  assumes "make_first env first g name = Inr (g', out)"
  shows "symbols_of g' = symbols_of g"
proof -
  from assms obtain raw where f: "foldM (make_first_label env) raw (g, []) = Inr (g', out)"
    unfolding make_first_def by (auto split: option.splits)
  have "symbols_of (fst (g', out)) = symbols_of g"
    by (rule foldM_invariant [OF f, where P = "\<lambda>s. symbols_of (fst s) = symbols_of g"])
      (auto dest: make_first_label_symbols)
  then show ?thesis by simp
qed

lemma make_rule_symbols:
  assumes "make_rule env dfas first name g = Inr g'"
  shows "symbols_of g' = symbols_of g"
proof -
  from assms obtain dfa g1 sts g2 fs where
    a: "foldM (make_state env dfa) dfa (g, []) = Inr (g1, sts)"
    and b: "make_first env first (g1\<lparr>gstates := gstates g1 @ [sts]\<rparr>) name = Inr (g2, fs)"
    and c: "symbols_of g' = symbols_of g2"
    unfolding make_rule_def
    by (auto simp: symbols_of_def split: option.splits sum.splits prod.splits)
  have "symbols_of (fst (g1, sts)) = symbols_of g"
    by (rule foldM_invariant [OF a, where P = "\<lambda>s. symbols_of (fst s) = symbols_of g"])
      (auto dest: make_state_symbols)
  moreover from make_first_symbols [OF b] have "symbols_of g2 = symbols_of g1"
    by (simp add: symbols_of_def)
  ultimately show ?thesis using c by simp
qed

lemma make_grammar_symbols:
  assumes "make_grammar env dfas grammar = Inr g'"
  shows "symbols_of g' = symbols_of (fold number_symbol (sort (map fst dfas)) grammar)"
proof -
  from assms obtain first where
    f: "foldM (make_rule env dfas first) (sort (map fst dfas))
          (fold number_symbol (sort (map fst dfas)) grammar) = Inr g'"
    unfolding make_grammar_def Let_def by (auto split: sum.splits)
  show ?thesis
    by (rule foldM_invariant [OF f, where P = "\<lambda>s. symbols_of s =
          symbols_of (fold number_symbol (sort (map fst dfas)) grammar)"])
      (auto dest: make_rule_symbols)
qed

lemma fold_number_symbol:
  assumes "symbol2number g = zip pre (map int [256 ..< 256 + length pre])"
    and "number2symbol g = zip (map int [256 ..< 256 + length pre]) pre"
    and "distinct (pre @ names)"
  shows "symbols_of (fold number_symbol names g) =
     (zip (pre @ names) (map int [256 ..< 256 + length (pre @ names)]),
      zip (map int [256 ..< 256 + length (pre @ names)]) (pre @ names))"
  using assms
proof (induction names arbitrary: g pre)
  case Nil
  then show ?case by (simp add: symbols_of_def)
next
  case (Cons n names)
  let ?i = "256 + int (length (symbol2number g))"
  have len: "length (symbol2number g) = length pre" using Cons.prems(1) by simp
  have k1: "n \<notin> fst ` set (symbol2number g)"
    using Cons.prems(1,3) by (auto dest: set_zip_leftD)
  have k2: "?i \<notin> fst ` set (number2symbol g)"
    using Cons.prems(2) len by (auto dest!: set_zip_leftD)
  have up: "[256 ..< 256 + length (pre @ [n])] = [256 ..< 256 + length pre] @ [256 + length pre]"
    using upt_Suc_append [of 256 "256 + length pre"] by simp
  have s2n: "symbol2number (number_symbol n g) = zip (pre @ [n]) (map int [256 ..< 256 + length (pre @ [n])])"
    unfolding up using Cons.prems(1) len k1
    by (simp add: number_symbol_def Let_def AList_update_new)
  have n2s: "number2symbol (number_symbol n g) = zip (map int [256 ..< 256 + length (pre @ [n])]) (pre @ [n])"
    unfolding up using Cons.prems(2) len k2
    by (simp add: number_symbol_def Let_def AList_update_new)
  have d: "distinct ((pre @ [n]) @ names)" using Cons.prems(3) by simp
  from Cons.IH [OF s2n n2s d] show ?case by simp
qed

lemma zip_inverse:
  assumes "distinct xs" "distinct ys" "length xs = length ys"
  shows "map_of (zip xs ys) x = Some y \<longleftrightarrow> map_of (zip ys xs) y = Some x"
proof -
  have a: "map_of (zip xs ys) x = Some y \<longleftrightarrow> (x, y) \<in> set (zip xs ys)"
    using assms by (auto dest: map_of_SomeD intro!: map_of_is_SomeI)
  have b: "map_of (zip ys xs) y = Some x \<longleftrightarrow> (y, x) \<in> set (zip ys xs)"
    using assms by (auto dest: map_of_SomeD intro!: map_of_is_SomeI)
  have "(x, y) \<in> set (zip xs ys) \<longleftrightarrow> (y, x) \<in> set (zip ys xs)"
    by (subst zip_commute) auto
  with a b show ?thesis by simp
qed

lemma symbols_fresh:
  assumes ok: "make_grammar env dfas grammar = Inr g'"
    and fresh: "symbol2number grammar = []" "number2symbol grammar = []"
    and keys: "distinct (map fst dfas)"
  shows "symbol2number g' = zip (sort (map fst dfas)) (map int [256 ..< 256 + length dfas])"
    and "number2symbol g' = zip (map int [256 ..< 256 + length dfas]) (sort (map fst dfas))"
proof -
  have "symbols_of (fold number_symbol (sort (map fst dfas)) grammar) =
     (zip ([] @ sort (map fst dfas)) (map int [256 ..< 256 + length ([] @ sort (map fst dfas))]),
      zip (map int [256 ..< 256 + length ([] @ sort (map fst dfas))]) ([] @ sort (map fst dfas)))"
    by (rule fold_number_symbol) (use fresh keys in auto)
  with make_grammar_symbols [OF ok]
  show "symbol2number g' = zip (sort (map fst dfas)) (map int [256 ..< 256 + length dfas])"
    and "number2symbol g' = zip (map int [256 ..< 256 + length dfas]) (sort (map fst dfas))"
    by (simp_all add: symbols_of_def)
qed

text \<open>
  Claim C7. When \<^verbatim>\<open>make_grammar\<close> is given a grammar object whose symbol tables are
  empty (as the constructor leaves them) and returns, \<open>symbol2number\<close> pairs the rule names
  in lexicographic order with \<open>256, 257, \<dots>\<close>, \<open>number2symbol\<close> is its inverse, the
  names numbered are exactly the rule names, and the assignment depends only on the set of
  rule names: another run on a rule table with the same names, in any order, gives the same
  \<open>symbol2number\<close>.
\<close>

theorem make_grammar_symbol_numbers:
  assumes ok: "make_grammar env dfas grammar = Inr g'"
    and fresh: "symbol2number grammar = [] \<and> number2symbol grammar = []"
    and keys: "distinct (map fst dfas)"
  shows "symbol2number g' = zip (sort (map fst dfas)) (map int [256 ..< 256 + length dfas]) \<and>
    number2symbol g' = zip (map int [256 ..< 256 + length dfas]) (sort (map fst dfas)) \<and>
    fst ` set (symbol2number g') = fst ` set dfas \<and>
    (\<forall>name i. map_of (symbol2number g') name = Some i \<longleftrightarrow>
       map_of (number2symbol g') i = Some name) \<and>
    (\<forall>env2 dfas2 grammar2 g2.
       make_grammar env2 dfas2 grammar2 = Inr g2 \<and>
       symbol2number grammar2 = [] \<and> number2symbol grammar2 = [] \<and>
       distinct (map fst dfas2) \<and> set (map fst dfas2) = set (map fst dfas) \<longrightarrow>
       symbol2number g2 = symbol2number g')"
proof (intro conjI allI impI)
  let ?names = "sort (map fst dfas)"
  let ?nums = "map int [256 ..< 256 + length dfas]"
  from fresh have f: "symbol2number grammar = []" "number2symbol grammar = []" by simp_all
  show s2n: "symbol2number g' = zip ?names ?nums" by (rule symbols_fresh(1) [OF ok f keys])
  show n2s: "number2symbol g' = zip ?nums ?names" by (rule symbols_fresh(2) [OF ok f keys])
  have len: "length ?names = length ?nums" by simp
  have "map fst (zip ?names ?nums) = ?names" using len by (rule map_fst_zip)
  then have "fst ` set (zip ?names ?nums) = set ?names" by (metis set_map)
  then show "fst ` set (symbol2number g') = fst ` set dfas" unfolding s2n by simp
  have dn: "distinct ?names" using keys by simp
  have di: "distinct ?nums" by (simp add: distinct_map)
  fix name i
  show "map_of (symbol2number g') name = Some i \<longleftrightarrow> map_of (number2symbol g') i = Some name"
    unfolding s2n n2s by (rule zip_inverse [OF dn di len])
next
  fix env2 dfas2 grammar2 g2
  assume a: "make_grammar env2 dfas2 grammar2 = Inr g2 \<and>
       symbol2number grammar2 = [] \<and> number2symbol grammar2 = [] \<and>
       distinct (map fst dfas2) \<and> set (map fst dfas2) = set (map fst dfas)"
  from fresh have f: "symbol2number grammar = []" "number2symbol grammar = []" by simp_all
  have "sort (map fst dfas2) = sort (map fst dfas)"
    using a keys by (intro sorted_distinct_set_unique) auto
  moreover have "length dfas2 = length dfas"
    using a keys by (metis distinct_card length_map)
  moreover have "symbol2number g2 = zip (sort (map fst dfas2)) (map int [256 ..< 256 + length dfas2])"
    by (rule symbols_fresh(1)) (use a in auto)
  ultimately show "symbol2number g2 = symbol2number g'"
    using symbols_fresh(1) [OF ok f keys] by simp
qed

lemma chain_rules_grammar:
  "make_grammar example_env chain_rules (Grammar_init (Some ''b'')) = Inr (chain_grammar (Some ''b''))"
  by code_simp

lemma chain_rules_grammar_rev:
  "make_grammar example_env (rev chain_rules) (Grammar_init (Some ''a'')) = Inr (chain_grammar (Some ''a''))"
  by code_simp

theorem make_grammar_symbol_numbers_witness:
  "make_grammar example_env chain_rules (Grammar_init (Some ''b'')) = Inr (chain_grammar (Some ''b'')) \<and>
   symbol2number (Grammar_init (Some ''b'')) = [] \<and> number2symbol (Grammar_init (Some ''b'')) = [] \<and>
   distinct (map fst chain_rules) \<and>
   symbol2number (chain_grammar (Some ''b'')) = zip [''a'', ''b''] [256, 257] \<and>
   map_of (number2symbol (chain_grammar (Some ''b''))) 257 = Some ''b'' \<and>
   symbol2number (chain_grammar (Some ''a'')) = symbol2number (chain_grammar (Some ''b''))"
proof -
  have f: "symbol2number (Grammar_init (Some ''b'')) = [] \<and> number2symbol (Grammar_init (Some ''b'')) = []"
    by (simp add: Grammar_init_def)
  have f2: "symbol2number (Grammar_init (Some ''a'')) = []" "number2symbol (Grammar_init (Some ''a'')) = []"
    by (simp_all add: Grammar_init_def)
  have d: "distinct (map fst chain_rules)" by (simp add: chain_rules_def)
  have so: "sort (map fst chain_rules) = [''a'', ''b'']" by code_simp
  have nu: "map int [256 ..< 256 + length chain_rules] = [256, 257]" by code_simp
  note t = make_grammar_symbol_numbers [OF chain_rules_grammar f d]
  from t have a: "symbol2number (chain_grammar (Some ''b'')) = zip [''a'', ''b''] [256, 257]"
    unfolding so nu by simp
  from t have "map_of (symbol2number (chain_grammar (Some ''b''))) ''b'' = Some 257 \<longleftrightarrow>
      map_of (number2symbol (chain_grammar (Some ''b''))) 257 = Some ''b''" by blast
  with a have b: "map_of (number2symbol (chain_grammar (Some ''b''))) 257 = Some ''b''" by simp
  from t have "make_grammar example_env (rev chain_rules) (Grammar_init (Some ''a'')) = Inr (chain_grammar (Some ''a'')) \<and>
       symbol2number (Grammar_init (Some ''a'')) = [] \<and> number2symbol (Grammar_init (Some ''a'')) = [] \<and>
       distinct (map fst (rev chain_rules)) \<and> set (map fst (rev chain_rules)) = set (map fst chain_rules) \<longrightarrow>
       symbol2number (chain_grammar (Some ''a'')) = symbol2number (chain_grammar (Some ''b''))"
    by blast
  then have c: "symbol2number (chain_grammar (Some ''a'')) = symbol2number (chain_grammar (Some ''b''))"
    using chain_rules_grammar_rev f2 d by (auto simp: chain_rules_def)
  from chain_rules_grammar f d a b c show ?thesis by simp
qed

end
